theory Spec2Isabelle
  imports Main
begin

section \<open>Python values, exceptions and list subscripts\<close>

text \<open>
  The cache of \<^verbatim>\<open>lfu_cache/models.py\<close> is a Python object whose methods mutate two
  containers. Every method is embedded as a function from the object's state to the
  outcome of the call and the state the object is left in. A call either returns a value
  or raises; the state is kept in both cases, since a Python exception leaves the object
  as it was at the \<^verbatim>\<open>raise\<close>.
\<close>

datatype py_error = LFUCacheException | KeyError | IndexError

datatype 'a result = Return 'a | Raise py_error

text \<open>
  The values a caller may pass as a limit. \<open>PyBool\<close> is listed apart from \<open>PyInt\<close>
  because \<^verbatim>\<open>bool\<close> is a subclass of \<^verbatim>\<open>int\<close>: \<^verbatim>\<open>isinstance(True, int)\<close> holds and
  \<^verbatim>\<open>True\<close> counts as \<open>1\<close> in arithmetic and comparisons. \<open>PyOther\<close> is an object of any
  other type (a \<^verbatim>\<open>str\<close>, a \<^verbatim>\<open>float\<close>, a \<^verbatim>\<open>list\<close>, ...), carried by its printed form.
\<close>

datatype pyval = PyNone | PyBool bool | PyInt int | PyOther string

text \<open>\<open>int_value v\<close> is \<open>Some n\<close> exactly when \<^verbatim>\<open>isinstance(v, int)\<close>, with \<open>n\<close> its value.\<close>

fun int_value :: "pyval \<Rightarrow> int option" where
  "int_value (PyInt n) = Some n"
| "int_value (PyBool b) = Some (if b then 1 else 0)"
| "int_value PyNone = None"
| "int_value (PyOther s) = None"

text \<open>
  \<^verbatim>\<open>xs[i]\<close> and \<^verbatim>\<open>del xs[i]\<close>: a negative subscript counts from the end, and a subscript
  outside the list raises \<^verbatim>\<open>IndexError\<close> (\<open>None\<close> here).
\<close>

definition py_index :: "'a list \<Rightarrow> int \<Rightarrow> nat option" where
  "py_index xs i =
     (let n = int (length xs); j = (if i < 0 then i + n else i)
      in if 0 \<le> j \<and> j < n then Some (nat j) else None)"

text \<open>A slice bound is clamped into the list instead of raising.\<close>

definition slice_bound :: "nat \<Rightarrow> int \<Rightarrow> nat" where
  "slice_bound n i = (if i < 0 then nat (max (i + int n) 0) else min (nat i) n)"

definition py_slice :: "'a list \<Rightarrow> int option \<Rightarrow> int option \<Rightarrow> 'a list" where
  "py_slice xs start stop =
     (let n = length xs;
          s = (case start of None \<Rightarrow> 0 | Some i \<Rightarrow> slice_bound n i);
          e = (case stop of None \<Rightarrow> n | Some i \<Rightarrow> slice_bound n i)
      in take (e - s) (drop s xs))"

definition del_at :: "'a list \<Rightarrow> nat \<Rightarrow> 'a list" where
  "del_at xs j = take j xs @ drop (Suc j) xs"

section \<open>The cache object\<close>

text \<open>
  \<^verbatim>\<open>_cache_entries\<close> maps a key to \<^verbatim>\<open>[queue_id, value]\<close>, \<^verbatim>\<open>_priority_queue\<close> is the list
  of \<^verbatim>\<open>[key, access_count]\<close>. The stored limit is \<open>None\<close> for \<^verbatim>\<open>None\<close> and \<open>Some n\<close> for an
  \<^verbatim>\<open>int\<close> (a \<^verbatim>\<open>bool\<close> stored as its integer value, which is how every later use reads it).
  The lock is not part of the state: a \<^verbatim>\<open>with self._lock\<close> block leaves it as it found it.
\<close>

record ('k, 'v) lfu_cache =
  limit :: "int option"
  cache_entries :: "'k \<rightharpoonup> int \<times> 'v"
  priority_queue :: "('k \<times> int) list"
  hits :: int
  misses :: int

text \<open>\<^verbatim>\<open>__init__\<close>: no object exists when the constructor raises.\<close>

definition init :: "pyval \<Rightarrow> py_error + ('k, 'v) lfu_cache" where
  "init limit_arg =
     (if \<not> (limit_arg = PyNone \<or> (case int_value limit_arg of Some n \<Rightarrow> n \<ge> 0 | None \<Rightarrow> False))
      then Inl LFUCacheException
      else Inr \<lparr>limit = int_value limit_arg, cache_entries = Map.empty, priority_queue = [],
                hits = 0, misses = 0\<rparr>)"

text \<open>\<^verbatim>\<open>__len__\<close>\<close>

definition len :: "('k, 'v) lfu_cache \<Rightarrow> int" where
  "len c = int (length (priority_queue c))"

text \<open>
  The \<^verbatim>\<open>while excessive_entries > 0\<close> loop of the limit setter: \<^verbatim>\<open>pop()\<close> takes the last
  item (\<^verbatim>\<open>IndexError\<close> on an empty list), \<^verbatim>\<open>del\<close> removes its key (\<^verbatim>\<open>KeyError\<close> when absent).
\<close>

function limit_loop :: "int \<Rightarrow> ('k, 'v) lfu_cache \<Rightarrow> unit result \<times> ('k, 'v) lfu_cache" where
  "limit_loop excessive_entries c =
     (if excessive_entries > 0 then
        (if priority_queue c = [] then (Raise IndexError, c)
         else
           let item = last (priority_queue c);
               c1 = c\<lparr>priority_queue := butlast (priority_queue c)\<rparr>
           in (case cache_entries c1 (fst item) of
                 None \<Rightarrow> (Raise KeyError, c1)
               | Some _ \<Rightarrow>
                   limit_loop (excessive_entries - 1)
                     (c1\<lparr>cache_entries := (cache_entries c1)(fst item := None)\<rparr>)))
      else (Return (), c))"
  by pat_completeness auto
termination
  by (relation "measure (\<lambda>(e, c). nat e)") auto

declare limit_loop.simps [simp del]

text \<open>The setter of the \<^verbatim>\<open>limit\<close> property.\<close>

definition set_limit :: "('k, 'v) lfu_cache \<Rightarrow> pyval \<Rightarrow> unit result \<times> ('k, 'v) lfu_cache" where
  "set_limit c new_limit =
     (if new_limit \<noteq> PyNone then
        (case int_value new_limit of
           None \<Rightarrow> (Raise LFUCacheException, c)
         | Some n \<Rightarrow>
             if n < 0 then (Raise LFUCacheException, c)
             else (case limit_loop (len c - n) c of
                     (Raise e, c') \<Rightarrow> (Raise e, c')
                   | (Return _, c') \<Rightarrow> (Return (), c'\<lparr>limit := Some n\<rparr>)))
      else (Return (), c\<lparr>limit := None\<rparr>))"

definition clear :: "('k, 'v) lfu_cache \<Rightarrow> unit result \<times> ('k, 'v) lfu_cache" where
  "clear c = (Return (), c\<lparr>cache_entries := Map.empty, priority_queue := []\<rparr>)"

definition has_cache :: "('k, 'v) lfu_cache \<Rightarrow> 'k \<Rightarrow> bool" where
  "has_cache c key = (cache_entries c key \<noteq> None)"

text \<open>
  The loop \<^verbatim>\<open>for item in self._priority_queue[queue_id:]: self._cache_entries[item[0]][0] -= 1\<close>
  shared by \<^verbatim>\<open>remove\<close> and \<^verbatim>\<open>_remove_by_id\<close>; the slice is taken before the loop starts.
\<close>

fun shift_ids :: "('k \<times> int) list \<Rightarrow> ('k, 'v) lfu_cache \<Rightarrow> unit result \<times> ('k, 'v) lfu_cache" where
  "shift_ids [] c = (Return (), c)"
| "shift_ids (item # items) c =
     (case cache_entries c (fst item) of
        None \<Rightarrow> (Raise KeyError, c)
      | Some (i, v) \<Rightarrow>
          shift_ids items (c\<lparr>cache_entries := (cache_entries c)(fst item \<mapsto> (i - 1, v))\<rparr>))"

definition remove :: "('k, 'v) lfu_cache \<Rightarrow> 'k \<Rightarrow> bool result \<times> ('k, 'v) lfu_cache" where
  "remove c key =
     (case cache_entries c key of
        None \<Rightarrow> (Return False, c)
      | Some (queue_id, _) \<Rightarrow>
          (case py_index (priority_queue c) queue_id of
             None \<Rightarrow> (Raise IndexError, c)
           | Some j \<Rightarrow>
               let c1 = c\<lparr>priority_queue := del_at (priority_queue c) j\<rparr>;
                   c2 = c1\<lparr>cache_entries := (cache_entries c1)(key := None)\<rparr>
               in (case shift_ids (py_slice (priority_queue c2) (Some queue_id) None) c2 of
                     (Raise e, c') \<Rightarrow> (Raise e, c')
                   | (Return _, c') \<Rightarrow> (Return True, c'))))"

definition remove_by_id :: "('k, 'v) lfu_cache \<Rightarrow> int \<Rightarrow> bool result \<times> ('k, 'v) lfu_cache" where
  "remove_by_id c queue_id =
     (if \<not> (len c > queue_id \<and> queue_id \<ge> 0) then (Return False, c)
      else
        let key = fst (priority_queue c ! nat queue_id)
        in (case cache_entries c key of
              None \<Rightarrow> (Raise KeyError, c)
            | Some _ \<Rightarrow>
                let c1 = c\<lparr>cache_entries := (cache_entries c)(key := None)\<rparr>;
                    c2 = c1\<lparr>priority_queue := del_at (priority_queue c1) (nat queue_id)\<rparr>
                in (case shift_ids (py_slice (priority_queue c2) (Some queue_id) None) c2 of
                      (Raise e, c') \<Rightarrow> (Raise e, c')
                    | (Return _, c') \<Rightarrow> (Return True, c'))))"

text \<open>
  The \<^verbatim>\<open>while\<close> loop of \<^verbatim>\<open>_increment_access_count\<close>, on its two loop variables; it returns
  the final \<^verbatim>\<open>queue_id\<close>. The tuple assignment reads both slots before it writes either.
\<close>

function promote_loop ::
  "int \<Rightarrow> int \<Rightarrow> ('k, 'v) lfu_cache \<Rightarrow> int result \<times> ('k, 'v) lfu_cache" where
  "promote_loop queue_id next_queue_id c =
     (if queue_id > 0 then
        (case py_index (priority_queue c) queue_id of
           None \<Rightarrow> (Raise IndexError, c)
         | Some i \<Rightarrow>
            (case py_index (priority_queue c) next_queue_id of
               None \<Rightarrow> (Raise IndexError, c)
             | Some j \<Rightarrow>
                 if snd (priority_queue c ! i) > snd (priority_queue c ! j) then
                   let next_entry_key = fst (priority_queue c ! j)
                   in (case cache_entries c next_entry_key of
                         None \<Rightarrow> (Raise KeyError, c)
                       | Some (_, v) \<Rightarrow>
                           let c1 = c\<lparr>cache_entries :=
                                        (cache_entries c)(next_entry_key \<mapsto> (next_queue_id + 1, v))\<rparr>;
                               c2 = c1\<lparr>priority_queue :=
                                        (priority_queue c1)[i := priority_queue c1 ! j,
                                                            j := priority_queue c1 ! i]\<rparr>
                           in promote_loop (queue_id - 1) (next_queue_id - 1) c2)
                 else (Return queue_id, c)))
      else (Return queue_id, c))"
  by pat_completeness auto
termination
  by (relation "measure (\<lambda>(q, n, c). nat q)") auto

declare promote_loop.simps [simp del]

definition increment_access_count ::
  "('k, 'v) lfu_cache \<Rightarrow> 'k \<Rightarrow> unit result \<times> ('k, 'v) lfu_cache" where
  "increment_access_count c key =
     (case cache_entries c key of
        None \<Rightarrow> (Raise KeyError, c)
      | Some (queue_id, _) \<Rightarrow>
          let next_queue_id = queue_id - 1
          in (case py_index (priority_queue c) queue_id of
                None \<Rightarrow> (Raise IndexError, c)
              | Some i \<Rightarrow>
                  let c1 = c\<lparr>priority_queue :=
                              (priority_queue c)[i := (fst (priority_queue c ! i),
                                                       snd (priority_queue c ! i) + 1)]\<rparr>
                  in (case promote_loop queue_id next_queue_id c1 of
                        (Raise e, c') \<Rightarrow> (Raise e, c')
                      | (Return queue_id', c2) \<Rightarrow>
                          (case cache_entries c2 key of
                             None \<Rightarrow> (Raise KeyError, c2)
                           | Some (_, v) \<Rightarrow>
                               (Return (),
                                c2\<lparr>cache_entries := (cache_entries c2)(key \<mapsto> (queue_id', v))\<rparr>)))))"

definition add ::
  "('k, 'v) lfu_cache \<Rightarrow> 'k \<Rightarrow> 'v \<Rightarrow> bool \<Rightarrow> bool result \<times> ('k, 'v) lfu_cache" where
  "add c key val update =
     (if limit c = Some 0 then (Return False, c)
      else if \<not> has_cache c key then
        (case (case limit c of
                 None \<Rightarrow> (Return (len c), c)
               | Some lim \<Rightarrow>
                   if len c \<ge> lim then
                     (case remove_by_id c (lim - 1) of
                        (Raise e, c') \<Rightarrow> (Raise e, c')
                      | (Return _, c') \<Rightarrow> (Return (len c - 1), c'))
                   else (Return (len c), c)) of
           (Raise e, c') \<Rightarrow> (Raise e, c')
         | (Return queue_len, c1) \<Rightarrow>
             let c2 = c1\<lparr>priority_queue := priority_queue c1 @ [(key, 1)]\<rparr>;
                 c3 = c2\<lparr>cache_entries := (cache_entries c2)(key \<mapsto> (queue_len, val))\<rparr>
             in (Return True, c3\<lparr>misses := misses c3 + 1\<rparr>))
      else if update then
        (case increment_access_count c key of
           (Raise e, c') \<Rightarrow> (Raise e, c')
         | (Return _, c1) \<Rightarrow>
             (case cache_entries c1 key of
                None \<Rightarrow> (Raise KeyError, c1)
              | Some (i, _) \<Rightarrow>
                  let c2 = c1\<lparr>cache_entries := (cache_entries c1)(key \<mapsto> (i, val))\<rparr>
                  in (Return True, c2\<lparr>misses := misses c2 + 1\<rparr>)))
      else (Return False, c))"

definition get :: "('k, 'v) lfu_cache \<Rightarrow> 'k \<Rightarrow> 'v \<Rightarrow> 'v result \<times> ('k, 'v) lfu_cache" where
  "get c key default_value =
     (if \<not> has_cache c key then (Return default_value, c)
      else
        let c1 = c\<lparr>hits := hits c + 1\<rparr>
        in (case increment_access_count c1 key of
              (Raise e, c') \<Rightarrow> (Raise e, c')
            | (Return _, c2) \<Rightarrow>
                (case cache_entries c2 key of
                   None \<Rightarrow> (Raise KeyError, c2)
                 | Some (_, v) \<Rightarrow> (Return v, c2))))"

text \<open>
  \<^verbatim>\<open>retrieve\<close>: the comprehension over \<^verbatim>\<open>self._priority_queue[start:end]\<close>, building one
  \<^verbatim>\<open>CacheEntry(key, value, access_count)\<close> per item; a key missing from the index raises.
\<close>

fun cache_entry_list ::
  "('k, 'v) lfu_cache \<Rightarrow> ('k \<times> int) list \<Rightarrow> ('k \<times> 'v \<times> int) list result" where
  "cache_entry_list c [] = Return []"
| "cache_entry_list c ((key, access_count) # items) =
     (case cache_entries c key of
        None \<Rightarrow> Raise KeyError
      | Some (_, v) \<Rightarrow>
          (case cache_entry_list c items of
             Raise e \<Rightarrow> Raise e
           | Return es \<Rightarrow> Return ((key, v, access_count) # es)))"

definition retrieve ::
  "('k, 'v) lfu_cache \<Rightarrow> int option \<Rightarrow> int option \<Rightarrow> ('k \<times> 'v \<times> int) list result" where
  "retrieve c start stop = cache_entry_list c (py_slice (priority_queue c) start stop)"

section \<open>Sequences of public calls\<close>

text \<open>
  A call made on the object; \<open>apply_op\<close> is the state the object is in after the call,
  whether the call returned or raised (a caller may catch the exception and go on, as the
  test suite does with the invalid limits).
\<close>

datatype ('k, 'v) operation =
    Add 'k 'v bool
  | Get 'k 'v
  | Remove 'k
  | Clear
  | SetLimit pyval
  | HasCache 'k
  | Len
  | Retrieve "int option" "int option"
  | GetLimit
  | Hits
  | Misses

fun apply_op :: "('k, 'v) lfu_cache \<Rightarrow> ('k, 'v) operation \<Rightarrow> ('k, 'v) lfu_cache" where
  "apply_op c (Add key val update) = snd (add c key val update)"
| "apply_op c (Get key default_value) = snd (get c key default_value)"
| "apply_op c (Remove key) = snd (remove c key)"
| "apply_op c Clear = snd (clear c)"
| "apply_op c (SetLimit new_limit) = snd (set_limit c new_limit)"
| "apply_op c (HasCache key) = c"
| "apply_op c Len = c"
| "apply_op c (Retrieve start stop) = c"
| "apply_op c GetLimit = c"
| "apply_op c Hits = c"
| "apply_op c Misses = c"

definition run :: "('k, 'v) lfu_cache \<Rightarrow> ('k, 'v) operation list \<Rightarrow> ('k, 'v) lfu_cache" where
  "run c ops = foldl apply_op c ops"

text \<open>
  The cache the test suite starts every test from: \<^verbatim>\<open>LFUCache(limit=5)\<close> filled with the
  keys \<^verbatim>\<open>"0"\<close> to \<^verbatim>\<open>"4"\<close> in this order (the tests store random strings; fixed ones here).
\<close>

definition empty5 :: "(string, string) lfu_cache" where
  "empty5 = \<lparr>limit = Some 5, cache_entries = Map.empty, priority_queue = [],
             hits = 0, misses = 0\<rparr>"

definition generate_cache5 :: "(string, string) lfu_cache" where
  "generate_cache5 =
     run empty5 [Add ''0'' ''v0'' False, Add ''1'' ''v1'' False, Add ''2'' ''v2'' False,
                 Add ''3'' ''v3'' False, Add ''4'' ''v4'' False]"

section \<open>The lock\<close>

text \<open>
  \<^verbatim>\<open>self._lock\<close> is an \<^verbatim>\<open>RLock\<close>. What a call does to it is the sequence of acquisitions
  and releases it performs: \<^verbatim>\<open>with self._lock: body\<close> acquires, runs the body and
  releases (also when the body raises). The functions below give this sequence for each
  method, following the method's own calls: \<^verbatim>\<open>has_cache\<close>, \<^verbatim>\<open>_remove_by_id\<close> and
  \<^verbatim>\<open>_increment_access_count\<close> have a \<^verbatim>\<open>with\<close> block of their own, \<^verbatim>\<open>__len__\<close>, \<^verbatim>\<open>retrieve\<close> and
  the property getters have none.
\<close>

datatype lock_event = Acquire | Release

definition with_lock :: "lock_event list \<Rightarrow> lock_event list" where
  "with_lock body = Acquire # body @ [Release]"

definition len_locks :: "lock_event list" where
  "len_locks = []"

definition has_cache_locks :: "lock_event list" where
  "has_cache_locks = with_lock []"

definition remove_by_id_locks :: "lock_event list" where
  "remove_by_id_locks = with_lock len_locks"

definition increment_access_count_locks :: "lock_event list" where
  "increment_access_count_locks = with_lock []"

definition set_limit_locks :: "('k, 'v) lfu_cache \<Rightarrow> pyval \<Rightarrow> lock_event list" where
  "set_limit_locks c new_limit =
     with_lock (if new_limit \<noteq> PyNone
                then (case int_value new_limit of
                        None \<Rightarrow> []
                      | Some n \<Rightarrow> if n < 0 then [] else len_locks)
                else [])"

definition clear_locks :: "lock_event list" where
  "clear_locks = with_lock []"

definition add_locks :: "('k, 'v) lfu_cache \<Rightarrow> 'k \<Rightarrow> bool \<Rightarrow> lock_event list" where
  "add_locks c key update =
     with_lock
       (if limit c = Some 0 then []
        else has_cache_locks @
          (if \<not> has_cache c key then
             len_locks @
             (case limit c of
                None \<Rightarrow> []
              | Some lim \<Rightarrow> if len c \<ge> lim then remove_by_id_locks else [])
           else if update then increment_access_count_locks
           else []))"

definition get_locks :: "('k, 'v) lfu_cache \<Rightarrow> 'k \<Rightarrow> lock_event list" where
  "get_locks c key =
     with_lock (has_cache_locks @
                (if \<not> has_cache c key then [] else increment_access_count_locks))"

definition remove_locks :: "lock_event list" where
  "remove_locks = with_lock has_cache_locks"

definition retrieve_locks :: "lock_event list" where
  "retrieve_locks = []"

fun locks :: "('k, 'v) lfu_cache \<Rightarrow> ('k, 'v) operation \<Rightarrow> lock_event list" where
  "locks c (Add key val update) = add_locks c key update"
| "locks c (Get key default_value) = get_locks c key"
| "locks c (Remove key) = remove_locks"
| "locks c Clear = clear_locks"
| "locks c (SetLimit new_limit) = set_limit_locks c new_limit"
| "locks c (HasCache key) = has_cache_locks"
| "locks c Len = len_locks"
| "locks c (Retrieve start stop) = retrieve_locks"
| "locks c GetLimit = []"
| "locks c Hits = []"
| "locks c Misses = []"

text \<open>
  The recursion level of the lock after each event, starting from level \<open>n\<close>; releasing
  a lock that is not held is an error (\<open>None\<close>).
\<close>

fun levels :: "nat \<Rightarrow> lock_event list \<Rightarrow> nat list option" where
  "levels n [] = Some []"
| "levels n (Acquire # es) = map_option ((#) (Suc n)) (levels (Suc n) es)"
| "levels n (Release # es) =
     (if n = 0 then None else map_option ((#) (n - 1)) (levels (n - 1) es))"

text \<open>
  A call made with the lock free holds it for its whole run when its first event takes
  the lock, its last event frees it, and the level is never 0 in between.
\<close>

definition holds_lock :: "lock_event list \<Rightarrow> bool" where
  "holds_lock es \<longleftrightarrow>
     (case levels 0 es of
        None \<Rightarrow> False
      | Some ls \<Rightarrow> ls \<noteq> [] \<and> last ls = 0 \<and> (\<forall>l \<in> set (butlast ls). 0 < l))"

section \<open>Well-formed states\<close>

text \<open>
  \<open>indexed\<close>: the index and the queue describe each other. No key occurs twice in the
  queue, the index holds exactly the keys of the queue, and the index sends the key of
  slot \<open>j\<close> to \<open>j\<close>.
\<close>

definition indexed :: "('k, 'v) lfu_cache \<Rightarrow> bool" where
  "indexed c \<longleftrightarrow>
     distinct (map fst (priority_queue c))
     \<and> dom (cache_entries c) = fst ` set (priority_queue c)
     \<and> (\<forall>j < length (priority_queue c).
           \<exists>v. cache_entries c (fst (priority_queue c ! j)) = Some (int j, v))"

definition within_limit :: "('k, 'v) lfu_cache \<Rightarrow> bool" where
  "within_limit c \<longleftrightarrow> (case limit c of None \<Rightarrow> True | Some n \<Rightarrow> 0 \<le> n \<and> len c \<le> n)"

definition lfu_inv :: "('k, 'v) lfu_cache \<Rightarrow> bool" where
  "lfu_inv c \<longleftrightarrow>
     indexed c
     \<and> sorted_wrt (\<ge>) (map snd (priority_queue c))
     \<and> (\<forall>e \<in> set (priority_queue c). 1 \<le> snd e)
     \<and> within_limit c"

section \<open>The seeded cache of the tests\<close>

text \<open>
  The five calls of \<^verbatim>\<open>generate_cache(5)\<close>, evaluated.
\<close>

lemma generate_cache5_eq:
  "generate_cache5 =
     \<lparr>limit = Some 5,
      cache_entries = [''0'' \<mapsto> (0, ''v0''), ''1'' \<mapsto> (1, ''v1''), ''2'' \<mapsto> (2, ''v2''),
                       ''3'' \<mapsto> (3, ''v3''), ''4'' \<mapsto> (4, ''v4'')],
      priority_queue = [(''0'', 1), (''1'', 1), (''2'', 1), (''3'', 1), (''4'', 1)],
      hits = 0, misses = 5\<rparr>"
  by (simp add: generate_cache5_def empty5_def run_def add_def has_cache_def len_def)

section \<open>What a call leaves alone\<close>

text \<open>
  The loops and the private methods never write \<^verbatim>\<open>_hits\<close>, \<^verbatim>\<open>_misses\<close> or \<^verbatim>\<open>_limit\<close>,
  whether they return or raise.
\<close>

lemma shift_ids_frame:
  "shift_ids items c = (r, c') \<Longrightarrow>
     hits c' = hits c \<and> misses c' = misses c \<and> limit c' = limit c"
proof (induction items arbitrary: c)
  case Nil
  then show ?case by simp
next
  case (Cons item items)
  then show ?case by (fastforce split: option.splits)
qed

lemma promote_loop_frame:
  "promote_loop q n c = (r, c') \<Longrightarrow>
     hits c' = hits c \<and> misses c' = misses c \<and> limit c' = limit c"
proof (induction q n c rule: promote_loop.induct)
  case (1 q n c)
  show ?case
    using "1.prems" "1.IH"
    by (subst (asm) promote_loop.simps) (fastforce simp: Let_def split: if_splits option.splits)
qed

lemma limit_loop_frame:
  "limit_loop e c = (r, c') \<Longrightarrow>
     hits c' = hits c \<and> misses c' = misses c \<and> limit c' = limit c
     \<and> r \<noteq> Raise LFUCacheException"
proof (induction e c rule: limit_loop.induct)
  case (1 e c)
  show ?case
    using "1.prems" "1.IH"
    by (subst (asm) limit_loop.simps) (fastforce simp: Let_def split: if_splits option.splits)
qed

lemma remove_by_id_frame:
  "remove_by_id c q = (r, c') \<Longrightarrow>
     hits c' = hits c \<and> misses c' = misses c \<and> limit c' = limit c"
  unfolding remove_by_id_def Let_def
  by (auto split: if_splits option.splits prod.splits result.splits dest!: shift_ids_frame)

lemma remove_frame:
  "remove c k = (r, c') \<Longrightarrow>
     hits c' = hits c \<and> misses c' = misses c \<and> limit c' = limit c"
  unfolding remove_def Let_def
  by (auto split: if_splits option.splits prod.splits result.splits dest!: shift_ids_frame)

lemma increment_access_count_frame:
  "increment_access_count c k = (r, c') \<Longrightarrow>
     hits c' = hits c \<and> misses c' = misses c \<and> limit c' = limit c"
  unfolding increment_access_count_def Let_def
  by (auto split: if_splits option.splits prod.splits result.splits dest!: promote_loop_frame)

section \<open>Invalid limits\<close>

text \<open>
  C7. A limit that is neither \<^verbatim>\<open>None\<close> nor a non-negative \<^verbatim>\<open>int\<close> is, among the values
  of \<open>pyval\<close>, an object of another type or a negative integer (a \<^verbatim>\<open>bool\<close> is an \<^verbatim>\<open>int\<close>
  of value 0 or 1). The constructor raises \<^verbatim>\<open>LFUCacheException\<close> for exactly these values;
  the setter raises it for each of them and leaves the cache, old limit included, exactly
  as it was; for every other value the setter does not raise it.
\<close>

theorem invalid_limit_raises:
  "((init v :: py_error + ('k, 'v) lfu_cache) = Inl LFUCacheException
      \<longleftrightarrow> (\<exists>s. v = PyOther s) \<or> (\<exists>n. v = PyInt n \<and> n < 0))
   \<and> ((\<exists>s. v = PyOther s) \<or> (\<exists>n. v = PyInt n \<and> n < 0)
      \<longrightarrow> set_limit (c :: ('k, 'v) lfu_cache) v = (Raise LFUCacheException, c))
   \<and> (\<not> ((\<exists>s. v = PyOther s) \<or> (\<exists>n. v = PyInt n \<and> n < 0))
      \<longrightarrow> fst (set_limit c v) \<noteq> Raise LFUCacheException)"
proof -
  have ctor: "((init v :: py_error + ('k, 'v) lfu_cache) = Inl LFUCacheException)
      = ((\<exists>s. v = PyOther s) \<or> (\<exists>n. v = PyInt n \<and> n < 0))"
    by (cases v) (auto simp: init_def)
  have bad: "set_limit c v = (Raise LFUCacheException, c)"
    if "(\<exists>s. v = PyOther s) \<or> (\<exists>n. v = PyInt n \<and> n < 0)"
    using that by (auto simp: set_limit_def)
  have good: "fst (set_limit c v) \<noteq> Raise LFUCacheException"
    if "\<not> ((\<exists>s. v = PyOther s) \<or> (\<exists>n. v = PyInt n \<and> n < 0))"
    using that
    by (cases v) (auto simp: set_limit_def split: prod.splits result.splits dest: limit_loop_frame)
  from ctor bad good show ?thesis by blast
qed

theorem invalid_limit_raises_witness:
  "(init (PyInt (- 1)) :: py_error + (string, string) lfu_cache) = Inl LFUCacheException
   \<and> (init (PyOther ''whoops'') :: py_error + (string, string) lfu_cache) = Inl LFUCacheException
   \<and> set_limit generate_cache5 (PyInt (- 1)) = (Raise LFUCacheException, generate_cache5)
   \<and> set_limit generate_cache5 (PyOther ''whoops'') = (Raise LFUCacheException, generate_cache5)
   \<and> fst (set_limit generate_cache5 (PyInt 0)) \<noteq> Raise LFUCacheException"
  using invalid_limit_raises [of "PyInt (- 1)" generate_cache5]
    invalid_limit_raises [of "PyOther ''whoops''" generate_cache5]
    invalid_limit_raises [of "PyInt 0" generate_cache5]
  by simp

section \<open>Calls that change nothing\<close>

text \<open>
  C8. In every state, \<^verbatim>\<open>get\<close> of a key that is not in the cache returns the default it
  was given and leaves the whole state (queue, index, hits, misses, limit) as it was.
\<close>

theorem get_absent_key:
  "\<not> has_cache c key \<Longrightarrow> get c key default_value = (Return default_value, c)"
  by (simp add: get_def)

theorem get_absent_key_witness:
  "\<not> has_cache generate_cache5 ''check_key''
   \<and> get generate_cache5 ''check_key'' ''d'' = (Return ''d'', generate_cache5)"
proof -
  have h: "\<not> has_cache generate_cache5 ''check_key''"
    by (simp add: generate_cache5_eq has_cache_def)
  from h get_absent_key [OF h, of "''d''"] show ?thesis by simp
qed

text \<open>
  C9. In every state, \<^verbatim>\<open>add\<close> returns \<^verbatim>\<open>False\<close> exactly when the limit is 0 or the key
  is present and \<^verbatim>\<open>update\<close> is false, and the state is then unchanged. When it returns
  \<^verbatim>\<open>True\<close> it ran one of the two writing branches (key absent, or \<^verbatim>\<open>update\<close> set), and
  \<^verbatim>\<open>misses\<close> went up by exactly 1 while \<^verbatim>\<open>hits\<close> and the limit kept their values.
\<close>

theorem add_frame:
  "(add c key val update = (Return False, c') \<longrightarrow>
      c' = c \<and> (limit c = Some 0 \<or> (has_cache c key \<and> \<not> update)))
   \<and> ((limit c = Some 0 \<or> (has_cache c key \<and> \<not> update)) \<longrightarrow>
      add c key val update = (Return False, c))
   \<and> (add c key val update = (Return True, c') \<longrightarrow>
      limit c \<noteq> Some 0 \<and> (\<not> has_cache c key \<or> update)
      \<and> misses c' = misses c + 1 \<and> hits c' = hits c \<and> limit c' = limit c)"
proof -
  have ret_false: "c' = c \<and> (limit c = Some 0 \<or> (has_cache c key \<and> \<not> update))"
    if "add c key val update = (Return False, c')"
    using that unfolding add_def Let_def
    by (auto split: if_splits option.splits prod.splits result.splits)
  have conv: "add c key val update = (Return False, c)"
    if "limit c = Some 0 \<or> (has_cache c key \<and> \<not> update)"
    using that unfolding add_def by auto
  have ret_true: "limit c \<noteq> Some 0 \<and> (\<not> has_cache c key \<or> update)
      \<and> misses c' = misses c + 1 \<and> hits c' = hits c \<and> limit c' = limit c"
    if a: "add c key val update = (Return True, c')"
  proof -
    from a have 1: "limit c \<noteq> Some 0" unfolding add_def by (auto split: if_splits)
    from a have 2: "\<not> has_cache c key \<or> update" unfolding add_def by (auto split: if_splits)
    from a have 3: "misses c' = misses c + 1"
      unfolding add_def Let_def
      by (auto split: if_splits option.splits prod.splits result.splits
          dest!: remove_by_id_frame increment_access_count_frame)
    from a have 4: "hits c' = hits c"
      unfolding add_def Let_def
      by (auto split: if_splits option.splits prod.splits result.splits
          dest!: remove_by_id_frame increment_access_count_frame)
    from a have 5: "limit c' = limit c"
      unfolding add_def Let_def
      by (auto split: if_splits option.splits prod.splits result.splits
          dest!: remove_by_id_frame increment_access_count_frame)
    from 1 2 3 4 5 show ?thesis by blast
  qed
  from ret_false conv ret_true show ?thesis by blast
qed

theorem add_frame_witness:
  "(has_cache generate_cache5 ''0'' \<and> \<not> False)
   \<and> add generate_cache5 ''0'' ''w'' False = (Return False, generate_cache5)
   \<and> fst (add generate_cache5 ''0'' ''w'' True) = Return True
   \<and> misses (snd (add generate_cache5 ''0'' ''w'' True)) = misses generate_cache5 + 1
   \<and> hits (snd (add generate_cache5 ''0'' ''w'' True)) = hits generate_cache5"
proof -
  have h: "has_cache generate_cache5 ''0''"
    by (simp add: generate_cache5_eq has_cache_def)
  have t: "fst (add generate_cache5 ''0'' ''w'' True) = Return True"
    by (simp add: generate_cache5_eq add_def has_cache_def increment_access_count_def
        py_index_def promote_loop.simps Let_def)
  then have t': "add generate_cache5 ''0'' ''w'' True
             = (Return True, snd (add generate_cache5 ''0'' ''w'' True))"
    by (metis prod.collapse)
  from h add_frame [of generate_cache5 "''0''" "''w''" False generate_cache5]
  have f: "add generate_cache5 ''0'' ''w'' False = (Return False, generate_cache5)"
    by blast
  from t' add_frame [of generate_cache5 "''0''" "''w''" True
      "snd (add generate_cache5 ''0'' ''w'' True)"]
  have g: "misses (snd (add generate_cache5 ''0'' ''w'' True)) = misses generate_cache5 + 1
     \<and> hits (snd (add generate_cache5 ''0'' ''w'' True)) = hits generate_cache5"
    by blast
  from h t f g show ?thesis by blast
qed

section \<open>Subscripts, slices and deletion on lists\<close>

text \<open>
  A subscript or slice bound that is a slot of the list behaves like \<open>!\<close> and \<open>drop\<close>.
  The re-indexing loop, run over items with distinct keys that are all in the index,
  returns and lowers the slot of exactly these keys by one.
\<close>

lemma py_index_nat: "j < length xs \<Longrightarrow> py_index xs (int j) = Some j"
  by (simp add: py_index_def)

lemma py_index_range: "py_index xs i = Some j \<Longrightarrow> j < length xs"
  by (auto simp: py_index_def Let_def split: if_splits)

lemma py_slice_from: "j \<le> length xs \<Longrightarrow> py_slice xs (Some (int j)) None = drop j xs"
  by (simp add: py_slice_def slice_bound_def)

lemma py_slice_all: "py_slice xs None None = xs"
  by (simp add: py_slice_def)

lemma length_del_at: "j < length xs \<Longrightarrow> length (del_at xs j) = length xs - 1"
  by (simp add: del_at_def)

lemma nth_del_at:
  "j < length xs \<Longrightarrow> i < length xs - 1 \<Longrightarrow> del_at xs j ! i = (if i < j then xs ! i else xs ! Suc i)"
  by (auto simp: del_at_def nth_append min_def)

lemma drop_del_at: "j < length xs \<Longrightarrow> drop j (del_at xs j) = drop (Suc j) xs"
  by (simp add: del_at_def)

lemma set_del_at_subset: "set (del_at xs j) \<subseteq> set xs"
  by (auto simp: del_at_def dest: in_set_takeD in_set_dropD)

lemma map_del_at: "map f (del_at xs j) = del_at (map f xs) j"
  by (simp add: del_at_def take_map drop_map)

lemma distinct_del_at: "distinct xs \<Longrightarrow> distinct (del_at xs j)"
proof -
  assume d: "distinct xs"
  then have "distinct (take j xs @ drop j xs)" by simp
  then have "set (take j xs) \<inter> set (drop j xs) = {}"
    by (simp only: distinct_append)
  moreover have "set (drop (Suc j) xs) \<subseteq> set (drop j xs)"
    by (simp add: set_drop_subset_set_drop)
  ultimately have "set (take j xs) \<inter> set (drop (Suc j) xs) = {}" by blast
  with d show ?thesis by (simp add: del_at_def)
qed

lemma set_del_at_distinct:
  "distinct xs \<Longrightarrow> j < length xs \<Longrightarrow> set (del_at xs j) = set xs - {xs ! j}"
proof -
  assume d: "distinct xs" and j: "j < length xs"
  have xs: "xs = take j xs @ xs ! j # drop (Suc j) xs"
    using j by (simp add: id_take_nth_drop)
  then have "distinct (take j xs @ xs ! j # drop (Suc j) xs)" using d by simp
  then have "xs ! j \<notin> set (take j xs)" "xs ! j \<notin> set (drop (Suc j) xs)" by auto
  moreover have "set xs = set (take j xs) \<union> {xs ! j} \<union> set (drop (Suc j) xs)"
    by (subst xs) auto
  ultimately show ?thesis by (auto simp: del_at_def)
qed

lemma shift_ids_spec:
  "distinct (map fst items) \<Longrightarrow> fst ` set items \<subseteq> dom (cache_entries c) \<Longrightarrow>
   shift_ids items c =
     (Return (),
      c\<lparr>cache_entries := (\<lambda>k. if k \<in> fst ` set items
                               then map_option (\<lambda>(i, v). (i - 1, v)) (cache_entries c k)
                               else cache_entries c k)\<rparr>)"
proof (induction items arbitrary: c)
  case Nil
  then show ?case by simp
next
  case (Cons item items)
  obtain i v where iv: "cache_entries c (fst item) = Some (i, v)"
    using Cons.prems(2) by fastforce
  let ?c1 = "c\<lparr>cache_entries := (cache_entries c)(fst item \<mapsto> (i - 1, v))\<rparr>"
  have d: "distinct (map fst items)" and notin: "fst item \<notin> fst ` set items"
    using Cons.prems(1) by auto
  have sub: "fst ` set items \<subseteq> dom (cache_entries ?c1)"
    using Cons.prems(2) by auto
  have "shift_ids (item # items) c = shift_ids items ?c1"
    by (simp add: iv)
  also have "\<dots> = (Return (),
      ?c1\<lparr>cache_entries := (\<lambda>k. if k \<in> fst ` set items
                               then map_option (\<lambda>(i, v). (i - 1, v)) (cache_entries ?c1 k)
                               else cache_entries ?c1 k)\<rparr>)"
    by (rule Cons.IH [OF d sub])
  also have "\<dots> = (Return (),
      c\<lparr>cache_entries := (\<lambda>k. if k \<in> fst ` set (item # items)
                               then map_option (\<lambda>(i, v). (i - 1, v)) (cache_entries c k)
                               else cache_entries c k)\<rparr>)"
  proof -
    have "(\<lambda>k. if k \<in> fst ` set items
               then map_option (\<lambda>(i, v). (i - 1, v)) (cache_entries ?c1 k)
               else cache_entries ?c1 k)
        = (\<lambda>k. if k \<in> fst ` set (item # items)
               then map_option (\<lambda>(i, v). (i - 1, v)) (cache_entries c k)
               else cache_entries c k)"
      using notin iv by (auto intro!: ext)
    then show ?thesis by simp
  qed
  finally show ?case .
qed

section \<open>Removing a slot\<close>

text \<open>
  Facts read off \<open>indexed\<close>, and the state \<^verbatim>\<open>remove\<close> and \<^verbatim>\<open>_remove_by_id\<close> both produce
  when they delete slot \<open>q\<close> of a well-formed cache.
\<close>

lemma indexed_distinct: "indexed c \<Longrightarrow> distinct (map fst (priority_queue c))"
  by (simp add: indexed_def)

lemma indexed_slot:
  "indexed c \<Longrightarrow> j < length (priority_queue c) \<Longrightarrow>
     \<exists>v. cache_entries c (fst (priority_queue c ! j)) = Some (int j, v)"
  by (simp add: indexed_def)

lemma indexed_lookup:
  assumes "indexed c" and "cache_entries c k = Some (i, v)"
  shows "0 \<le> i \<and> nat i < length (priority_queue c) \<and> fst (priority_queue c ! nat i) = k"
proof -
  from assms have "k \<in> fst ` set (priority_queue c)"
    unfolding indexed_def by (metis domI)
  then obtain j where j: "j < length (priority_queue c)" "fst (priority_queue c ! j) = k"
    by (auto simp: in_set_conv_nth)
  with indexed_slot [OF assms(1) j(1)] assms(2) have "i = int j" by simp
  with j show ?thesis by simp
qed

lemma indexed_key_in_drop:
  assumes d: "distinct (map fst xs)" and j: "j < length xs"
  shows "fst (xs ! j) \<in> fst ` set (drop n xs) \<longleftrightarrow> n \<le> j"
proof
  assume "fst (xs ! j) \<in> fst ` set (drop n xs)"
  then obtain i where i: "i < length (drop n xs)" "fst (drop n xs ! i) = fst (xs ! j)"
    by (auto simp: in_set_conv_nth)
  then have "n + i < length xs" "map fst xs ! (n + i) = map fst xs ! j"
    using j by auto
  with d j have "n + i = j"
    using nth_eq_iff_index_eq [of "map fst xs" "n + i" j] by simp
  then show "n \<le> j" by simp
next
  assume "n \<le> j"
  then have "xs ! j = drop n xs ! (j - n)" "j - n < length (drop n xs)" using j by auto
  then show "fst (xs ! j) \<in> fst ` set (drop n xs)"
    by (metis imageI nth_mem)
qed

text \<open>The state both removals leave when they delete slot \<open>q\<close> of a well-formed cache.\<close>

lemma remove_slot_state:
  assumes wf: "indexed c" and q: "q < length (priority_queue c)"
  defines "key \<equiv> fst (priority_queue c ! q)"
  defines "c' \<equiv> c\<lparr>cache_entries :=
                     (\<lambda>k. if k \<in> fst ` set (drop (Suc q) (priority_queue c))
                          then map_option (\<lambda>(i, v). (i - 1, v)) (cache_entries c k)
                          else if k = key then None else cache_entries c k),
                   priority_queue := del_at (priority_queue c) q\<rparr>"
  shows "remove_by_id c (int q) = (Return True, c')"
    and "remove c key = (Return True, c')"
proof -
  let ?pq = "priority_queue c"
  let ?items = "drop (Suc q) ?pq"
  obtain v where kv: "cache_entries c key = Some (int q, v)"
    using indexed_slot [OF wf q] by (auto simp: key_def)
  have d: "distinct (map fst ?pq)" by (rule indexed_distinct [OF wf])
  have ditems: "distinct (map fst ?items)"
    using d by (simp add: drop_map [symmetric])
  have key_notin: "key \<notin> fst ` set ?items"
    using indexed_key_in_drop [OF d q, of "Suc q"] by (simp add: key_def)
  have items_dom: "fst ` set ?items \<subseteq> dom ((cache_entries c)(key := None))"
  proof
    fix k assume k: "k \<in> fst ` set ?items"
    then have "k \<in> fst ` set ?pq" by (auto dest: in_set_dropD)
    then have "k \<in> dom (cache_entries c)" using wf by (simp add: indexed_def)
    moreover have "k \<noteq> key" using k key_notin by auto
    ultimately show "k \<in> dom ((cache_entries c)(key := None))" by simp
  qed
  let ?c2 = "c\<lparr>priority_queue := del_at ?pq q,
               cache_entries := (cache_entries c)(key := None)\<rparr>"
  let ?L = "\<lambda>k. if k \<in> fst ` set ?items
               then map_option (\<lambda>(i, v). (i - 1, v)) (cache_entries ?c2 k)
               else cache_entries ?c2 k"
  have sh0: "shift_ids ?items ?c2 = (Return (), ?c2\<lparr>cache_entries := ?L\<rparr>)"
    by (rule shift_ids_spec) (use ditems items_dom in simp_all)
  have L: "?L = (\<lambda>k. if k \<in> fst ` set ?items
               then map_option (\<lambda>(i, v). (i - 1, v)) (cache_entries c k)
               else if k = key then None else cache_entries c k)"
    using key_notin by (auto intro!: ext)
  have sh: "shift_ids ?items ?c2 = (Return (), c')"
    unfolding sh0 L by (simp add: c'_def)
  have sl: "py_slice (del_at ?pq q) (Some (int q)) None = ?items"
    using q by (simp add: py_slice_from length_del_at drop_del_at)
  have swap: "c\<lparr>cache_entries := (cache_entries c)(key := None),
                priority_queue := del_at ?pq q\<rparr> = ?c2"
    by simp
  have sh': "shift_ids ?items (c\<lparr>cache_entries := (cache_entries c)(key := None),
                priority_queue := del_at ?pq q\<rparr>) = (Return (), c')"
    by (subst swap) (rule sh)
  show "remove_by_id c (int q) = (Return True, c')"
    using q kv sh' sl by (simp add: remove_by_id_def len_def key_def Let_def)
  show "remove c key = (Return True, c')"
    using q kv sh sl by (simp add: remove_def py_index_nat Let_def)
qed

section \<open>Removal keeps a state well formed\<close>

lemma sorted_wrt_del_at: "sorted_wrt P xs \<Longrightarrow> sorted_wrt P (del_at xs j)"
proof -
  assume s: "sorted_wrt P xs"
  have ab: "sorted_wrt P (take j xs) \<and> sorted_wrt P (drop j xs)
      \<and> (\<forall>x\<in>set (take j xs). \<forall>y\<in>set (drop j xs). P x y)"
    by (metis s append_take_drop_id sorted_wrt_append)
  then have a: "sorted_wrt P (take j xs)" and b: "\<forall>x\<in>set (take j xs). \<forall>y\<in>set (drop j xs). P x y"
    by blast+
  have c: "set (drop (Suc j) xs) \<subseteq> set (drop j xs)"
    by (simp add: set_drop_subset_set_drop)
  have d: "sorted_wrt P (drop (Suc j) xs)" using s by (rule sorted_wrt_drop)
  from a b c d show ?thesis
    unfolding del_at_def sorted_wrt_append by blast
qed

lemma indexed_remove_slot:
  assumes wf: "indexed c" and q: "q < length (priority_queue c)"
  shows "indexed (c\<lparr>cache_entries :=
                     (\<lambda>k. if k \<in> fst ` set (drop (Suc q) (priority_queue c))
                          then map_option (\<lambda>(i, v). (i - 1, v)) (cache_entries c k)
                          else if k = fst (priority_queue c ! q) then None else cache_entries c k),
                   priority_queue := del_at (priority_queue c) q\<rparr>)"
    (is "indexed ?c'")
proof -
  let ?pq = "priority_queue c"
  let ?key = "fst (?pq ! q)"
  let ?F = "cache_entries ?c'"
  have d: "distinct (map fst ?pq)" by (rule indexed_distinct [OF wf])
  have key_notin: "?key \<notin> fst ` set (drop (Suc q) ?pq)"
    using indexed_key_in_drop [OF d q, of "Suc q"] by simp
  have dom: "dom (cache_entries c) = fst ` set ?pq" using wf by (simp add: indexed_def)
  have keys: "fst ` set (del_at ?pq q) = fst ` set ?pq - {?key}"
    using set_del_at_distinct [OF d, of q] q by (simp add: map_del_at [symmetric])
  have 1: "distinct (map fst (priority_queue ?c'))"
    using d by (simp add: map_del_at distinct_del_at)
  have 2: "dom ?F = fst ` set (priority_queue ?c')"
  proof -
    have "dom ?F = dom (cache_entries c) - {?key}"
      using key_notin by (auto simp: dom_def split: if_splits)
    then show ?thesis using dom keys by simp
  qed
  have 3: "\<exists>v. ?F (fst (priority_queue ?c' ! j)) = Some (int j, v)"
    if j: "j < length (priority_queue ?c')" for j
  proof -
    from j q have j': "j < length ?pq - 1" by (simp add: length_del_at)
    show ?thesis
    proof (cases "j < q")
      case True
      then have nth: "del_at ?pq q ! j = ?pq ! j"
        using q j' by (simp add: nth_del_at)
      have jl: "j < length ?pq" using j' by simp
      have a: "fst (?pq ! j) \<notin> fst ` set (drop (Suc q) ?pq)"
        using indexed_key_in_drop [OF d jl, of "Suc q"] True by simp
      have b: "fst (?pq ! j) \<noteq> ?key"
        using nth_eq_iff_index_eq [OF d, of j q] jl q True by simp
      from indexed_slot [OF wf jl] a b show ?thesis by (simp add: nth)
    next
      case False
      then have nth: "del_at ?pq q ! j = ?pq ! Suc j"
        using q j' by (simp add: nth_del_at)
      have jl: "Suc j < length ?pq" using j' by simp
      have a: "fst (?pq ! Suc j) \<in> fst ` set (drop (Suc q) ?pq)"
        using indexed_key_in_drop [OF d jl, of "Suc q"] False by simp
      from indexed_slot [OF wf jl] a show ?thesis by (auto simp: nth)
    qed
  qed
  from 1 2 3 show ?thesis unfolding indexed_def by blast
qed

lemma lfu_inv_remove_slot:
  assumes inv: "lfu_inv c" and q: "q < length (priority_queue c)"
  shows "lfu_inv (c\<lparr>cache_entries :=
                     (\<lambda>k. if k \<in> fst ` set (drop (Suc q) (priority_queue c))
                          then map_option (\<lambda>(i, v). (i - 1, v)) (cache_entries c k)
                          else if k = fst (priority_queue c ! q) then None else cache_entries c k),
                   priority_queue := del_at (priority_queue c) q\<rparr>)"
proof -
  from inv have wf: "indexed c" by (simp add: lfu_inv_def)
  have 1: "sorted_wrt (\<ge>) (map snd (del_at (priority_queue c) q))"
    using inv by (simp add: lfu_inv_def map_del_at sorted_wrt_del_at)
  have 2: "\<forall>e \<in> set (del_at (priority_queue c) q). 1 \<le> snd e"
    using inv set_del_at_subset [of "priority_queue c" q] by (auto simp: lfu_inv_def)
  have 3: "length (del_at (priority_queue c) q) \<le> length (priority_queue c)"
    using q by (simp add: length_del_at)
  from inv 3 have 4: "within_limit (c\<lparr>cache_entries :=
                     (\<lambda>k. if k \<in> fst ` set (drop (Suc q) (priority_queue c))
                          then map_option (\<lambda>(i, v). (i - 1, v)) (cache_entries c k)
                          else if k = fst (priority_queue c ! q) then None else cache_entries c k),
                   priority_queue := del_at (priority_queue c) q\<rparr>)"
    by (auto simp: lfu_inv_def within_limit_def len_def split: option.splits)
  from indexed_remove_slot [OF wf q] 1 2 4 show ?thesis
    by (simp add: lfu_inv_def)
qed

lemma lfu_inv_remove: "lfu_inv c \<Longrightarrow> lfu_inv (snd (remove c key))"
proof (cases "cache_entries c key")
  case None
  assume "lfu_inv c"
  with None show ?thesis by (simp add: remove_def)
next
  case (Some a)
  assume inv: "lfu_inv c"
  then have wf: "indexed c" by (simp add: lfu_inv_def)
  obtain i v where a: "cache_entries c key = Some (i, v)" using Some by (cases a) simp
  from indexed_lookup [OF wf a]
  have q: "nat i < length (priority_queue c)" and k: "fst (priority_queue c ! nat i) = key"
    by simp_all
  from remove_slot_state(2) [OF wf q] lfu_inv_remove_slot [OF inv q] k
  show ?thesis by simp
qed

section \<open>The promotion loop\<close>

text \<open>
  One turn of the \<^verbatim>\<open>while\<close> loop of \<^verbatim>\<open>_increment_access_count\<close>, and what the whole loop
  does when started at slot \<open>q\<close>: it returns the slot \<open>p\<close> the entry ends in, the
  entries of slots \<open>p\<close> to \<open>q - 1\<close> have moved one slot down and are indexed there, every
  other key keeps its index entry, the entries passed had a strictly smaller count, and
  the entry now before slot \<open>p\<close>, if any, has a count that is not smaller.
\<close>

lemma distinct_swap_keys:
  "distinct (map fst xs) \<Longrightarrow> i < length xs \<Longrightarrow> j < length xs \<Longrightarrow>
     distinct (map fst (xs[i := xs ! j, j := xs ! i]))"
proof -
  assume d: "distinct (map fst xs)" and i: "i < length xs" and j: "j < length xs"
  have "map fst (xs[i := xs ! j, j := xs ! i])
          = (map fst xs)[i := map fst xs ! j, j := map fst xs ! i]"
    using i j by (simp add: map_update)
  then show ?thesis using distinct_swap [of i "map fst xs" j] d i j by simp
qed

lemma promote_loop_step:
  assumes q: "Suc q < length (priority_queue c)"
  shows "promote_loop (int (Suc q)) (int (Suc q) - 1) c =
     (if snd (priority_queue c ! Suc q) > snd (priority_queue c ! q) then
        (case cache_entries c (fst (priority_queue c ! q)) of
           None \<Rightarrow> (Raise KeyError, c)
         | Some (i, v) \<Rightarrow>
             promote_loop (int q) (int q - 1)
               (c\<lparr>cache_entries := (cache_entries c)(fst (priority_queue c ! q) \<mapsto> (int q + 1, v)),
                  priority_queue := (priority_queue c)[Suc q := priority_queue c ! q,
                                                      q := priority_queue c ! Suc q]\<rparr>))
      else (Return (int (Suc q)), c))"
proof -
  have i1: "py_index (priority_queue c) (int (Suc q)) = Some (Suc q)"
    using q by (intro py_index_nat)
  have i2: "py_index (priority_queue c) (int (Suc q) - 1) = Some q"
    using q py_index_nat [of q "priority_queue c"] by simp
  have e1: "int (Suc q) - 1 = int q" "int (Suc q) - 1 - 1 = int q - 1"
    "int (Suc q) - 1 + 1 = int q + 1" by simp_all
  show ?thesis
    apply (subst promote_loop.simps)
    apply (simp only: i1 i2 option.case Let_def)
    apply (simp only: e1)
    apply (auto split: option.splits)
    done
qed

lemma promote_loop_0: "promote_loop 0 n c = (Return 0, c)"
  by (subst promote_loop.simps) simp

lemma promote_loop_spec:
  "q < length (priority_queue c) \<Longrightarrow> distinct (map fst (priority_queue c)) \<Longrightarrow>
   \<forall>j<q. fst (priority_queue c ! j) \<in> dom (cache_entries c) \<Longrightarrow>
   \<exists>p c'. p \<le> q \<and> promote_loop (int q) (int q - 1) c = (Return (int p), c')
     \<and> length (priority_queue c') = length (priority_queue c)
     \<and> set (priority_queue c') = set (priority_queue c)
     \<and> distinct (map fst (priority_queue c'))
     \<and> (\<forall>j < length (priority_queue c).
           priority_queue c' ! j =
             (if j < p then priority_queue c ! j
              else if j = p then priority_queue c ! q
              else if j \<le> q then priority_queue c ! (j - 1)
              else priority_queue c ! j))
     \<and> (\<forall>j. p \<le> j \<and> j < q \<longrightarrow>
           (\<exists>i v. cache_entries c (fst (priority_queue c ! j)) = Some (i, v)
                \<and> cache_entries c' (fst (priority_queue c ! j)) = Some (int j + 1, v)))
     \<and> (\<forall>k. (\<forall>j. p \<le> j \<and> j < q \<longrightarrow> k \<noteq> fst (priority_queue c ! j))
           \<longrightarrow> cache_entries c' k = cache_entries c k)
     \<and> (\<forall>j. p \<le> j \<and> j < q \<longrightarrow> snd (priority_queue c ! j) < snd (priority_queue c ! q))
     \<and> (p = 0 \<or> snd (priority_queue c ! q) \<le> snd (priority_queue c ! (p - 1)))"
proof (induction q arbitrary: c)
  case 0
  then show ?case
    by (intro exI [of _ 0] exI [of _ c]) (simp add: promote_loop_0)
next
  case (Suc q)
  let ?pq = "priority_queue c"
  have len: "Suc q < length ?pq" by (rule Suc.prems(1))
  have d: "distinct (map fst ?pq)" by (rule Suc.prems(2))
  have key_inj: "fst (?pq ! a) = fst (?pq ! b) \<longleftrightarrow> a = b"
    if "a < length ?pq" "b < length ?pq" for a b
    using nth_eq_iff_index_eq [OF d, of a b] that by simp
  show ?case
  proof (cases "snd (?pq ! Suc q) > snd (?pq ! q)")
    case False
    have "promote_loop (int (Suc q)) (int (Suc q) - 1) c = (Return (int (Suc q)), c)"
      using False by (simp only: promote_loop_step [OF len] if_False)
    with False d show ?thesis
      by (intro exI [of _ "Suc q"] exI [of _ c]) auto
  next
    case True
    obtain i0 v0 where e0: "cache_entries c (fst (?pq ! q)) = Some (i0, v0)"
      using Suc.prems(3) by fastforce
    define pq2 where "pq2 = ?pq[Suc q := ?pq ! q, q := ?pq ! Suc q]"
    define c2 where "c2 = c\<lparr>cache_entries := (cache_entries c)(fst (?pq ! q) \<mapsto> (int q + 1, v0)),
                          priority_queue := pq2\<rparr>"
    have step: "promote_loop (int (Suc q)) (int (Suc q) - 1) c = promote_loop (int q) (int q - 1) c2"
      using True e0 by (simp only: promote_loop_step [OF len] if_True option.case prod.case
          c2_def pq2_def)
    have pq_c2: "priority_queue c2 = pq2" and en_c2: "cache_entries c2
        = (cache_entries c)(fst (?pq ! q) \<mapsto> (int q + 1, v0))"
      by (simp_all add: c2_def)
    have len2: "length pq2 = length ?pq" by (simp add: pq2_def)
    have n_lt: "pq2 ! j = ?pq ! j" if "j < q" for j using that len by (simp add: pq2_def)
    have n_q: "pq2 ! q = ?pq ! Suc q" using len by (simp add: pq2_def)
    have n_Sq: "pq2 ! Suc q = ?pq ! q" using len by (simp add: pq2_def)
    have n_gt: "pq2 ! j = ?pq ! j" if "Suc q < j" for j using that by (simp add: pq2_def)
    have d2: "distinct (map fst pq2)"
      unfolding pq2_def using distinct_swap_keys [OF d, of "Suc q" q] len by simp
    have dom2: "\<forall>j<q. fst (priority_queue c2 ! j) \<in> dom (cache_entries c2)"
      using Suc.prems(3) by (auto simp: pq_c2 en_c2 n_lt)
    have "q < length (priority_queue c2)" using len by (simp add: pq_c2 len2)
    from Suc.IH [OF this _ dom2] d2
    obtain p c' where p: "p \<le> q"
      and run: "promote_loop (int q) (int q - 1) c2 = (Return (int p), c')"
      and l': "length (priority_queue c') = length pq2"
      and set': "set (priority_queue c') = set pq2"
      and dist': "distinct (map fst (priority_queue c'))"
      and nth': "\<forall>j < length pq2. priority_queue c' ! j =
             (if j < p then pq2 ! j else if j = p then pq2 ! q
              else if j \<le> q then pq2 ! (j - 1) else pq2 ! j)"
      and moved': "\<forall>j. p \<le> j \<and> j < q \<longrightarrow>
           (\<exists>i v. cache_entries c2 (fst (pq2 ! j)) = Some (i, v)
                \<and> cache_entries c' (fst (pq2 ! j)) = Some (int j + 1, v))"
      and same': "\<forall>k. (\<forall>j. p \<le> j \<and> j < q \<longrightarrow> k \<noteq> fst (pq2 ! j))
           \<longrightarrow> cache_entries c' k = cache_entries c2 k"
      and less': "\<forall>j. p \<le> j \<and> j < q \<longrightarrow> snd (pq2 ! j) < snd (pq2 ! q)"
      and stop': "p = 0 \<or> snd (pq2 ! q) \<le> snd (pq2 ! (p - 1))"
      unfolding pq_c2 by blast
    have 1: "promote_loop (int (Suc q)) (int (Suc q) - 1) c = (Return (int p), c')"
      using step run by simp
    have 2: "length (priority_queue c') = length ?pq" using l' len2 by simp
    have 8: "set (priority_queue c') = set ?pq"
      using set' len by (simp add: pq2_def)
    have 3: "priority_queue c' ! j =
             (if j < p then ?pq ! j else if j = p then ?pq ! Suc q
              else if j \<le> Suc q then ?pq ! (j - 1) else ?pq ! j)"
      if j: "j < length ?pq" for j
    proof -
      from nth' j len2 have eq: "priority_queue c' ! j =
             (if j < p then pq2 ! j else if j = p then pq2 ! q
              else if j \<le> q then pq2 ! (j - 1) else pq2 ! j)" by simp
      consider "j < p" | "j = p" | "p < j" "j \<le> q" | "j = Suc q" | "Suc q < j" by linarith
      then show ?thesis
      proof cases
        case 1 with eq p show ?thesis by (simp add: n_lt)
      next
        case 2 with eq p show ?thesis by (simp add: n_q)
      next
        case 3 with eq p show ?thesis by (simp add: n_lt)
      next
        case 4 with eq p show ?thesis by (simp add: n_Sq)
      next
        case 5 with eq p show ?thesis by (simp add: n_gt)
      qed
    qed
    have 4: "\<exists>i v. cache_entries c (fst (?pq ! j)) = Some (i, v)
                \<and> cache_entries c' (fst (?pq ! j)) = Some (int j + 1, v)"
      if j: "p \<le> j" "j < Suc q" for j
    proof (cases "j = q")
      case True
      have "\<forall>j'. p \<le> j' \<and> j' < q \<longrightarrow> fst (?pq ! q) \<noteq> fst (pq2 ! j')"
        using key_inj [of q] len by (auto simp: n_lt)
      with same' have "cache_entries c' (fst (?pq ! q)) = cache_entries c2 (fst (?pq ! q))"
        by blast
      with e0 True show ?thesis by (simp add: en_c2)
    next
      case False
      with j have jq: "j < q" by simp
      with moved' j obtain i v where
        a: "cache_entries c2 (fst (pq2 ! j)) = Some (i, v)"
        and b: "cache_entries c' (fst (pq2 ! j)) = Some (int j + 1, v)" by blast
      have ne: "fst (?pq ! j) \<noteq> fst (?pq ! q)" using key_inj [of j q] jq len by simp
      from a b ne jq show ?thesis by (simp add: n_lt en_c2)
    qed
    have 5: "cache_entries c' k = cache_entries c k"
      if k: "\<forall>j. p \<le> j \<and> j < Suc q \<longrightarrow> k \<noteq> fst (?pq ! j)" for k
    proof -
      from k p have kq: "k \<noteq> fst (?pq ! q)" by simp
      from k have "\<forall>j. p \<le> j \<and> j < q \<longrightarrow> k \<noteq> fst (pq2 ! j)" by (simp add: n_lt)
      with same' have "cache_entries c' k = cache_entries c2 k" by blast
      with kq show ?thesis by (simp add: en_c2)
    qed
    have 6: "snd (?pq ! j) < snd (?pq ! Suc q)" if j: "p \<le> j" "j < Suc q" for j
    proof (cases "j = q")
      case True with \<open>snd (?pq ! q) < snd (?pq ! Suc q)\<close> show ?thesis by simp
    next
      case False
      with j have "j < q" by simp
      with less' j show ?thesis by (auto simp: n_lt n_q)
    qed
    have 7: "p = 0 \<or> snd (?pq ! Suc q) \<le> snd (?pq ! (p - 1))"
      using stop' p by (cases p) (auto simp: n_lt n_q)
    from p 1 2 3 4 5 6 7 8 dist' show ?thesis
      by (intro exI [of _ p] exI [of _ c']) (simp add: le_Suc_eq)
  qed
qed

section \<open>Counting an access\<close>

text \<open>
  \<^verbatim>\<open>_increment_access_count\<close> on a key of a well-formed cache returns, and leaves a
  well-formed cache with every value kept.
\<close>

lemma increment_access_count_spec:
  assumes wf: "indexed c" and kv: "cache_entries c key = Some (i, v)"
  shows "\<exists>p c'. p \<le> nat i \<and> increment_access_count c key = (Return (), c')
     \<and> length (priority_queue c') = length (priority_queue c)
     \<and> (\<forall>j < length (priority_queue c).
           priority_queue c' ! j =
             (if j < p then priority_queue c ! j
              else if j = p then (key, snd (priority_queue c ! nat i) + 1)
              else if j \<le> nat i then priority_queue c ! (j - 1)
              else priority_queue c ! j))
     \<and> (\<forall>j. p \<le> j \<and> j < nat i \<longrightarrow>
            snd (priority_queue c ! j) \<le> snd (priority_queue c ! nat i))
     \<and> (p = 0 \<or> snd (priority_queue c ! nat i) + 1 \<le> snd (priority_queue c ! (p - 1)))
     \<and> cache_entries c' key = Some (int p, v)
     \<and> (\<forall>k i' w. cache_entries c k = Some (i', w) \<longrightarrow>
            (\<exists>i''. cache_entries c' k = Some (i'', w)))
     \<and> indexed c'"
proof -
  let ?pq = "priority_queue c"
  define q where "q = nat i"
  define cnt where "cnt = snd (?pq ! q)"
  from indexed_lookup [OF wf kv] have i: "i = int q" and q: "q < length ?pq"
    and kq: "fst (?pq ! q) = key" by (simp_all add: q_def)
  have d: "distinct (map fst ?pq)" by (rule indexed_distinct [OF wf])
  have key_inj: "fst (?pq ! a) = fst (?pq ! b) \<longleftrightarrow> a = b"
    if "a < length ?pq" "b < length ?pq" for a b
    using nth_eq_iff_index_eq [OF d, of a b] that by simp
  define pq1 where "pq1 = ?pq[q := (key, cnt + 1)]"
  define c1 where "c1 = c\<lparr>priority_queue := pq1\<rparr>"
  have pq_c1: "priority_queue c1 = pq1" and en_c1: "cache_entries c1 = cache_entries c"
    by (simp_all add: c1_def)
  have len1: "length pq1 = length ?pq" by (simp add: pq1_def)
  have n_q: "pq1 ! q = (key, cnt + 1)" using q by (simp add: pq1_def)
  have n_ne: "pq1 ! j = ?pq ! j" if "j \<noteq> q" for j using that by (simp add: pq1_def)
  have keys1: "map fst pq1 = map fst ?pq"
    using q kq by (simp add: pq1_def map_update list_update_same_conv)
  have d1: "distinct (map fst (priority_queue c1))" using d by (simp add: pq_c1 keys1)
  have dom1: "\<forall>j<q. fst (priority_queue c1 ! j) \<in> dom (cache_entries c1)"
  proof (intro allI impI)
    fix j assume "j < q"
    then have "j < length ?pq" "pq1 ! j = ?pq ! j" using q by (simp_all add: n_ne)
    with indexed_slot [OF wf, of j] show "fst (priority_queue c1 ! j) \<in> dom (cache_entries c1)"
      by (auto simp: pq_c1 en_c1)
  qed
  have "q < length (priority_queue c1)" using q by (simp add: pq_c1 len1)
  from promote_loop_spec [OF this d1 dom1]
  obtain p c2 where p: "p \<le> q"
    and run: "promote_loop (int q) (int q - 1) c1 = (Return (int p), c2)"
    and l2: "length (priority_queue c2) = length pq1"
    and set2: "set (priority_queue c2) = set pq1"
    and dist2: "distinct (map fst (priority_queue c2))"
    and nth2: "\<forall>j < length pq1. priority_queue c2 ! j =
             (if j < p then pq1 ! j else if j = p then pq1 ! q
              else if j \<le> q then pq1 ! (j - 1) else pq1 ! j)"
    and moved2: "\<forall>j. p \<le> j \<and> j < q \<longrightarrow>
           (\<exists>i v. cache_entries c (fst (pq1 ! j)) = Some (i, v)
                \<and> cache_entries c2 (fst (pq1 ! j)) = Some (int j + 1, v))"
    and same2: "\<forall>k. (\<forall>j. p \<le> j \<and> j < q \<longrightarrow> k \<noteq> fst (pq1 ! j))
           \<longrightarrow> cache_entries c2 k = cache_entries c k"
    and less2: "\<forall>j. p \<le> j \<and> j < q \<longrightarrow> snd (pq1 ! j) < snd (pq1 ! q)"
    and stop2: "p = 0 \<or> snd (pq1 ! q) \<le> snd (pq1 ! (p - 1))"
    unfolding pq_c1 en_c1 by blast
  have key2: "cache_entries c2 key = Some (int q, v)"
  proof -
    have "\<forall>j. p \<le> j \<and> j < q \<longrightarrow> key \<noteq> fst (pq1 ! j)"
      using key_inj [of q] q kq by (auto simp: n_ne)
    with same2 kv i show ?thesis by simp
  qed
  define c' where "c' = c2\<lparr>cache_entries := (cache_entries c2)(key \<mapsto> (int p, v))\<rparr>"
  have pq_c': "priority_queue c' = priority_queue c2"
    and en_c': "cache_entries c' = (cache_entries c2)(key \<mapsto> (int p, v))"
    by (simp_all add: c'_def)
  have idx: "py_index ?pq i = Some q" using q i by (simp add: py_index_nat)
  have run_eq: "increment_access_count c key = (Return (), c')"
    unfolding increment_access_count_def
    using kv idx kq run key2
    by (simp add: Let_def i c1_def [symmetric, unfolded pq1_def cnt_def] c'_def)
  have len_eq: "length (priority_queue c') = length ?pq" by (simp add: pq_c' l2 len1)
  have nth_eq: "priority_queue c' ! j =
             (if j < p then ?pq ! j else if j = p then (key, cnt + 1)
              else if j \<le> q then ?pq ! (j - 1) else ?pq ! j)"
    if j: "j < length ?pq" for j
  proof -
    from nth2 j len1 have eq: "priority_queue c' ! j =
             (if j < p then pq1 ! j else if j = p then pq1 ! q
              else if j \<le> q then pq1 ! (j - 1) else pq1 ! j)" by (simp add: pq_c')
    consider "j < p" | "j = p" | "p < j" "j \<le> q" | "q < j" by linarith
    then show ?thesis
    proof cases
      case 1 with eq p show ?thesis by (simp add: n_ne)
    next
      case 2 with eq p show ?thesis by (simp add: n_q)
    next
      case 3 with eq p show ?thesis by (simp add: n_ne)
    next
      case 4 with eq p show ?thesis by (simp add: n_ne)
    qed
  qed
  have passed: "snd (?pq ! j) \<le> cnt" if "p \<le> j" "j < q" for j
    using less2 that by (auto simp: n_ne n_q)
  have stopped: "p = 0 \<or> cnt + 1 \<le> snd (?pq ! (p - 1))"
    using stop2 p by (cases p) (auto simp: n_ne n_q)
  have key_eq: "cache_entries c' key = Some (int p, v)" by (simp add: en_c')
  have moved: "\<exists>w. cache_entries c (fst (?pq ! j)) = Some (int j, w)
                \<and> cache_entries c' (fst (?pq ! j)) = Some (int j + 1, w)"
    if j: "p \<le> j" "j < q" for j
  proof -
    from j q have jl: "j < length ?pq" by simp
    from moved2 j obtain i' w where a: "cache_entries c (fst (?pq ! j)) = Some (i', w)"
      and b: "cache_entries c2 (fst (?pq ! j)) = Some (int j + 1, w)"
      by (auto simp: n_ne)
    from indexed_slot [OF wf jl] a have "i' = int j" by simp
    moreover have "fst (?pq ! j) \<noteq> key" using key_inj [of j q] j q kq by auto
    ultimately show ?thesis using a b by (simp add: en_c')
  qed
  have same: "cache_entries c' k = cache_entries c k"
    if "k \<noteq> key" "\<forall>j. p \<le> j \<and> j < q \<longrightarrow> k \<noteq> fst (?pq ! j)" for k
  proof -
    from that(2) have "\<forall>j. p \<le> j \<and> j < q \<longrightarrow> k \<noteq> fst (pq1 ! j)" by (simp add: n_ne)
    with same2 that(1) show ?thesis by (simp add: en_c')
  qed
  have vals: "\<exists>i''. cache_entries c' k = Some (i'', w)" if k: "cache_entries c k = Some (i', w)" for k i' w
  proof (cases "k = key")
    case True
    with k kv key_eq show ?thesis by simp
  next
    case False
    show ?thesis
    proof (cases "\<exists>j. p \<le> j \<and> j < q \<and> k = fst (?pq ! j)")
      case True
      then obtain j where "p \<le> j" "j < q" "k = fst (?pq ! j)" by blast
      with moved [of j] k show ?thesis by auto
    next
      case no: False
      with same [OF False] k show ?thesis by auto
    qed
  qed
  have wf_new: "indexed c'"
    unfolding indexed_def
  proof (intro conjI allI impI)
    show "distinct (map fst (priority_queue c'))" using dist2 by (simp add: pq_c')
  next
    have "dom (cache_entries c') = dom (cache_entries c)"
    proof (intro set_eqI iffI)
      fix k assume "k \<in> dom (cache_entries c')"
      then obtain a where a: "cache_entries c' k = Some a" by blast
      show "k \<in> dom (cache_entries c)"
      proof (cases "k = key \<or> (\<exists>j. p \<le> j \<and> j < q \<and> k = fst (?pq ! j))")
        case True
        then show ?thesis using kv moved by auto
      next
        case False
        then have "cache_entries c' k = cache_entries c k" using same [of k] by blast
        with a show ?thesis by (simp add: dom_def)
      qed
    next
      fix k assume "k \<in> dom (cache_entries c)"
      then obtain i' w where "cache_entries c k = Some (i', w)" by fastforce
      from vals [OF this] show "k \<in> dom (cache_entries c')" by blast
    qed
    moreover have "fst ` set (priority_queue c') = fst ` set ?pq"
      using keys1 set2 by (metis pq_c' set_map)
    ultimately show "dom (cache_entries c') = fst ` set (priority_queue c')"
      using wf by (simp add: indexed_def)
  next
    fix j assume "j < length (priority_queue c')"
    then have jl: "j < length ?pq" by (simp add: len_eq)
    consider "j < p" | "j = p" | "p < j" "j \<le> q" | "q < j" by linarith
    then show "\<exists>v. cache_entries c' (fst (priority_queue c' ! j)) = Some (int j, v)"
    proof cases
      case 1
      then have "fst (?pq ! j) \<noteq> key" using key_inj [of j q] jl q kq p by auto
      moreover have "\<forall>j'. p \<le> j' \<and> j' < q \<longrightarrow> fst (?pq ! j) \<noteq> fst (?pq ! j')"
        using key_inj [of j] jl q 1 by auto
      ultimately have "cache_entries c' (fst (?pq ! j)) = cache_entries c (fst (?pq ! j))"
        by (rule same)
      with indexed_slot [OF wf jl] 1 show ?thesis by (simp add: nth_eq [OF jl])
    next
      case 2
      with key_eq nth_eq [OF jl] show ?thesis by simp
    next
      case 3
      then have "p \<le> j - 1" "j - 1 < q" by simp_all
      from moved [OF this] 3 show ?thesis by (auto simp: nth_eq [OF jl])
    next
      case 4
      then have "fst (?pq ! j) \<noteq> key" using key_inj [of j q] jl q kq by auto
      moreover have "\<forall>j'. p \<le> j' \<and> j' < q \<longrightarrow> fst (?pq ! j) \<noteq> fst (?pq ! j')"
        using key_inj [of j] jl q 4 by auto
      ultimately have "cache_entries c' (fst (?pq ! j)) = cache_entries c (fst (?pq ! j))"
        by (rule same)
      with indexed_slot [OF wf jl] 4 p show ?thesis by (simp add: nth_eq [OF jl])
    qed
  qed
  from p run_eq len_eq nth_eq passed stopped key_eq vals wf_new show ?thesis
    unfolding q_def [symmetric] cnt_def [symmetric]
    by (intro exI [of _ p] exI [of _ c']) blast
qed

section \<open>Promotion keeps the queue sorted\<close>

lemma sorted_after_promote:
  fixes xs ys :: "('k \<times> int) list"
  assumes s: "sorted_wrt (\<ge>) (map snd xs)" and q: "q < length xs" and p: "p \<le> q"
    and len: "length ys = length xs"
    and nth: "\<forall>j < length xs. ys ! j =
                (if j < p then xs ! j else if j = p then (k, snd (xs ! q) + 1)
                 else if j \<le> q then xs ! (j - 1) else xs ! j)"
    and passed: "\<forall>j. p \<le> j \<and> j < q \<longrightarrow> snd (xs ! j) \<le> snd (xs ! q)"
    and stopped: "p = 0 \<or> snd (xs ! q) + 1 \<le> snd (xs ! (p - 1))"
  shows "sorted_wrt (\<ge>) (map snd ys)"
proof -
  have ord: "snd (xs ! b) \<le> snd (xs ! a)" if "a \<le> b" "b < length xs" for a b
  proof (cases "a = b")
    case True then show ?thesis by simp
  next
    case False
    with that have "a < b" by simp
    with s that(2) show ?thesis
      by (simp add: sorted_wrt_map sorted_wrt_iff_nth_less)
  qed
  have goal: "snd (ys ! b) \<le> snd (ys ! a)" if ab: "a < b" and bl: "b < length xs" for a b
  proof -
    from ab bl have al: "a < length xs" by simp
    from nth al have ya: "ys ! a = (if a < p then xs ! a else if a = p then (k, snd (xs ! q) + 1)
                 else if a \<le> q then xs ! (a - 1) else xs ! a)" by simp
    from nth bl have yb: "ys ! b = (if b < p then xs ! b else if b = p then (k, snd (xs ! q) + 1)
                 else if b \<le> q then xs ! (b - 1) else xs ! b)" by simp
    consider "b < p" | "b = p" | "p < b" "b \<le> q" | "q < b" by linarith
    then show ?thesis
    proof cases
      case 1
      with ab ya yb ord [of a b] bl show ?thesis by simp
    next
      case 2
      with ab stopped have st: "snd (xs ! q) + 1 \<le> snd (xs ! (p - 1))" by simp
      from 2 ab bl have "snd (xs ! (p - 1)) \<le> snd (xs ! a)" by (intro ord) simp_all
      with st 2 ab ya yb show ?thesis by simp
    next
      case 3
      then have b1: "b - 1 < length xs" "p \<le> b - 1" "b - 1 < q" using bl by simp_all
      consider "a < p" | "a = p" | "p < a" by linarith
      then show ?thesis
      proof cases
        case 1
        then have "snd (xs ! (b - 1)) \<le> snd (xs ! a)" using b1 by (intro ord) simp_all
        with 1 3 ya yb show ?thesis by simp
      next
        case 2
        from passed b1 have "snd (xs ! (b - 1)) \<le> snd (xs ! q)" by blast
        with 2 3 ya yb show ?thesis by simp
      next
        case c: 3
        then have "snd (xs ! (b - 1)) \<le> snd (xs ! (a - 1))" using ab b1 by (intro ord) simp_all
        with c 3 ab ya yb show ?thesis by simp
      qed
    next
      case 4
      consider "a < p" | "a = p" | "p < a" "a \<le> q" | "q < a" by linarith
      then show ?thesis
      proof cases
        case 1
        with 4 p ab ya yb ord [of a b] bl show ?thesis by simp
      next
        case 2
        from 4 bl have "snd (xs ! b) \<le> snd (xs ! q)" by (intro ord) simp_all
        with 2 4 p ya yb show ?thesis by simp
      next
        case c: 3
        then have "snd (xs ! b) \<le> snd (xs ! (a - 1))" using ab bl by (intro ord) simp_all
        with c 4 p ya yb show ?thesis by simp
      next
        case c: 4
        with 4 p ab ya yb ord [of a b] bl show ?thesis by simp
      qed
    qed
  qed
  show ?thesis
    using goal len by (simp add: sorted_wrt_map sorted_wrt_iff_nth_less)
qed

lemma lfu_inv_increment:
  assumes inv: "lfu_inv c" and has: "has_cache c key"
  shows "\<exists>c'. increment_access_count c key = (Return (), c') \<and> lfu_inv c'
           \<and> has_cache c' key"
proof -
  from inv have wf: "indexed c" by (simp add: lfu_inv_def)
  from has obtain i v where kv: "cache_entries c key = Some (i, v)"
    by (auto simp: has_cache_def)
  let ?pq = "priority_queue c"
  from indexed_lookup [OF wf kv] have q: "nat i < length ?pq" by simp
  from increment_access_count_spec [OF wf kv]
  obtain p c' where p: "p \<le> nat i"
    and run_eq: "increment_access_count c key = (Return (), c')"
    and len_eq: "length (priority_queue c') = length ?pq"
    and nth_eq: "\<forall>j < length ?pq. priority_queue c' ! j =
             (if j < p then ?pq ! j
              else if j = p then (key, snd (?pq ! nat i) + 1)
              else if j \<le> nat i then ?pq ! (j - 1)
              else ?pq ! j)"
    and passed: "\<forall>j. p \<le> j \<and> j < nat i \<longrightarrow> snd (?pq ! j) \<le> snd (?pq ! nat i)"
    and stopped: "p = 0 \<or> snd (?pq ! nat i) + 1 \<le> snd (?pq ! (p - 1))"
    and key_eq: "cache_entries c' key = Some (int p, v)"
    and wf': "indexed c'"
    by blast
  from inv have s: "sorted_wrt (\<ge>) (map snd ?pq)" by (simp add: lfu_inv_def)
  have s': "sorted_wrt (\<ge>) (map snd (priority_queue c'))"
    by (rule sorted_after_promote [OF s q p len_eq nth_eq passed stopped])
  from inv have pos: "\<forall>e \<in> set ?pq. 1 \<le> snd e" by (simp add: lfu_inv_def)
  have pos': "\<forall>e \<in> set (priority_queue c'). 1 \<le> snd e"
  proof
    fix e assume "e \<in> set (priority_queue c')"
    then obtain j where j: "j < length ?pq" "e = priority_queue c' ! j"
      by (auto simp: in_set_conv_nth len_eq)
    from pos q have "1 \<le> snd (?pq ! nat i)" by simp
    moreover from pos j have "1 \<le> snd (?pq ! j)" by simp
    moreover from pos j have "1 \<le> snd (?pq ! (j - 1))" by simp
    ultimately show "1 \<le> snd e" using nth_eq j by auto
  qed
  from increment_access_count_frame [OF run_eq] inv len_eq
  have lim': "within_limit c'"
    by (simp add: lfu_inv_def within_limit_def len_def split: option.splits)
  from wf' s' pos' lim' have "lfu_inv c'" by (simp add: lfu_inv_def)
  with run_eq key_eq show ?thesis by (auto simp: has_cache_def)
qed

lemma lfu_inv_get: "lfu_inv c \<Longrightarrow> lfu_inv (snd (get c key default_value))"
proof (cases "has_cache c key")
  case False
  assume "lfu_inv c"
  with False show ?thesis by (simp add: get_def)
next
  case True
  assume inv: "lfu_inv c"
  let ?c1 = "c\<lparr>hits := hits c + 1\<rparr>"
  have "indexed ?c1" using inv by (simp add: lfu_inv_def indexed_def)
  moreover have "within_limit ?c1" using inv
    by (simp add: lfu_inv_def within_limit_def len_def split: option.splits)
  ultimately have i1: "lfu_inv ?c1" using inv by (simp add: lfu_inv_def)
  have h1: "has_cache ?c1 key" using True by (simp add: has_cache_def)
  from lfu_inv_increment [OF i1 h1]
  obtain c' where r: "increment_access_count ?c1 key = (Return (), c')"
    and i': "lfu_inv c'" and h': "has_cache c' key"
    by (elim exE conjE)
  from h' obtain i v where kv: "cache_entries c' key = Some (i, v)"
    by (auto simp: has_cache_def)
  have "get c key default_value = (Return v, c')"
    using True r kv by (simp add: get_def Let_def)
  with i' show ?thesis by simp
qed

section \<open>Lowering the limit\<close>

text \<open>
  The loop of the limit setter, asked to drop \<open>e\<close> entries of a queue that has them,
  returns and drops the last \<open>e\<close> slots together with their keys.
\<close>

lemma limit_loop_nonpos: "e \<le> 0 \<Longrightarrow> limit_loop e c = (Return (), c)"
  by (subst limit_loop.simps) simp

lemma limit_loop_spec:
  "e \<le> length (priority_queue c) \<Longrightarrow> distinct (map fst (priority_queue c)) \<Longrightarrow>
   fst ` set (priority_queue c) \<subseteq> dom (cache_entries c) \<Longrightarrow>
   limit_loop (int e) c =
     (Return (),
      c\<lparr>priority_queue := take (length (priority_queue c) - e) (priority_queue c),
        cache_entries :=
          (\<lambda>k. if k \<in> fst ` set (drop (length (priority_queue c) - e) (priority_queue c))
               then None else cache_entries c k)\<rparr>)"
proof (induction e arbitrary: c)
  case 0
  show ?case by (simp add: limit_loop_nonpos)
next
  case (Suc e)
  let ?pq = "priority_queue c"
  let ?n = "length ?pq"
  from Suc.prems(1) have ne: "?pq \<noteq> []" by auto
  then have split: "?pq = butlast ?pq @ [last ?pq]" by simp
  have d: "distinct (map fst (butlast ?pq))" and notin: "fst (last ?pq) \<notin> fst ` set (butlast ?pq)"
    using Suc.prems(2) by (subst (asm) split, simp)+
  have "last ?pq \<in> set ?pq" using ne by simp
  then obtain a where a: "cache_entries c (fst (last ?pq)) = Some a"
    using Suc.prems(3) by fastforce
  let ?c2 = "c\<lparr>priority_queue := butlast ?pq,
               cache_entries := (cache_entries c)(fst (last ?pq) := None)\<rparr>"
  have step: "limit_loop (int (Suc e)) c = limit_loop (int e) ?c2"
    using ne a by (subst limit_loop.simps) (simp add: Let_def)
  have e: "e \<le> length (priority_queue ?c2)" using Suc.prems(1) by simp
  have d2: "distinct (map fst (priority_queue ?c2))" using d by simp
  have sub: "fst ` set (priority_queue ?c2) \<subseteq> dom (cache_entries ?c2)"
  proof
    fix k assume k: "k \<in> fst ` set (priority_queue ?c2)"
    then have "k \<in> fst ` set ?pq" by (auto dest: in_set_butlastD)
    with Suc.prems(3) have "k \<in> dom (cache_entries c)" by blast
    moreover from k notin have "k \<noteq> fst (last ?pq)" by (simp, blast)
    ultimately show "k \<in> dom (cache_entries ?c2)" by simp
  qed
  have tk: "take (length (butlast ?pq) - e) (butlast ?pq) = take (?n - Suc e) ?pq"
    using ne by (simp add: butlast_conv_take)
  have dr: "set (drop (?n - Suc e) ?pq)
              = insert (last ?pq) (set (drop (length (butlast ?pq) - e) (butlast ?pq)))"
  proof -
    have "drop (?n - Suc e) ?pq = drop (?n - Suc e) (butlast ?pq @ [last ?pq])"
      using split by simp
    also have "\<dots> = drop (?n - Suc e) (butlast ?pq) @ [last ?pq]" by simp
    finally show ?thesis by simp
  qed
  have fn: "(\<lambda>k. if k \<in> fst ` set (drop (length (priority_queue ?c2) - e) (priority_queue ?c2))
               then None else cache_entries ?c2 k)
          = (\<lambda>k. if k \<in> fst ` set (drop (?n - Suc e) ?pq) then None else cache_entries c k)"
    by (auto intro!: ext simp: dr)
  have "limit_loop (int e) ?c2 =
      (Return (),
       ?c2\<lparr>priority_queue := take (length (priority_queue ?c2) - e) (priority_queue ?c2),
         cache_entries :=
          (\<lambda>k. if k \<in> fst ` set (drop (length (priority_queue ?c2) - e) (priority_queue ?c2))
               then None else cache_entries ?c2 k)\<rparr>)"
    by (rule Suc.IH [OF e d2 sub])
  also have "\<dots> = (Return (),
      c\<lparr>priority_queue := take (?n - Suc e) ?pq,
        cache_entries :=
          (\<lambda>k. if k \<in> fst ` set (drop (?n - Suc e) ?pq) then None else cache_entries c k)\<rparr>)"
    unfolding fn using tk by simp
  finally show ?case using step by simp
qed

section \<open>Assigning the limit\<close>

lemma set_limit_none: "set_limit c PyNone = (Return (), c\<lparr>limit := None\<rparr>)"
  by (simp add: set_limit_def)

lemma set_limit_keep:
  "int_value v = Some n \<Longrightarrow> len c \<le> n \<Longrightarrow> set_limit c v = (Return (), c\<lparr>limit := Some n\<rparr>)"
  by (cases v) (auto simp: set_limit_def limit_loop_nonpos len_def)

lemma set_limit_truncate:
  assumes wf: "indexed c" and v: "int_value v = Some n" and n: "0 \<le> n" "n < len c"
  shows "set_limit c v =
     (Return (),
      c\<lparr>priority_queue := take (nat n) (priority_queue c),
        cache_entries :=
          (\<lambda>k. if k \<in> fst ` set (drop (nat n) (priority_queue c))
               then None else cache_entries c k),
        limit := Some n\<rparr>)"
proof -
  let ?pq = "priority_queue c"
  let ?e = "length ?pq - nat n"
  have e: "len c - n = int ?e" using n by (simp add: len_def)
  have le: "?e \<le> length ?pq" by simp
  have kept: "length ?pq - ?e = nat n" using n by (simp add: len_def)
  have d: "distinct (map fst ?pq)" by (rule indexed_distinct [OF wf])
  have sub: "fst ` set ?pq \<subseteq> dom (cache_entries c)" using wf by (simp add: indexed_def)
  have ne: "v \<noteq> PyNone" using v by auto
  show ?thesis
    using ne v n(1) by (simp add: set_limit_def e limit_loop_spec [OF le d sub] kept)
qed

lemma indexed_truncate:
  assumes wf: "indexed c"
  shows "indexed (c\<lparr>priority_queue := take m (priority_queue c),
        cache_entries :=
          (\<lambda>k. if k \<in> fst ` set (drop m (priority_queue c))
               then None else cache_entries c k)\<rparr>)"
    (is "indexed ?c'")
proof -
  let ?pq = "priority_queue c"
  have d: "distinct (map fst ?pq)" by (rule indexed_distinct [OF wf])
  have dom: "dom (cache_entries c) = fst ` set ?pq" using wf by (simp add: indexed_def)
  have "distinct (map fst (take m ?pq) @ map fst (drop m ?pq))"
    using d by (simp add: map_append [symmetric] del: map_append)
  then have disj: "fst ` set (take m ?pq) \<inter> fst ` set (drop m ?pq) = {}"
    and d': "distinct (map fst (take m ?pq))" by auto
  have un: "fst ` set ?pq = fst ` set (take m ?pq) \<union> fst ` set (drop m ?pq)"
    by (metis append_take_drop_id image_Un set_append)
  have 1: "distinct (map fst (priority_queue ?c'))" using d' by simp
  have "dom (cache_entries ?c') = dom (cache_entries c) - fst ` set (drop m ?pq)"
    by (auto simp: dom_def split: if_splits)
  with dom un disj have 2: "dom (cache_entries ?c') = fst ` set (priority_queue ?c')"
    by auto
  have 3: "\<exists>v. cache_entries ?c' (fst (priority_queue ?c' ! j)) = Some (int j, v)"
    if j: "j < length (priority_queue ?c')" for j
  proof -
    from j have jm: "j < m" and jl: "j < length ?pq" by simp_all
    have "fst (?pq ! j) \<notin> fst ` set (drop m ?pq)"
      using indexed_key_in_drop [OF d jl, of m] jm by simp
    with indexed_slot [OF wf jl] jm show ?thesis by simp
  qed
  from 1 2 3 show ?thesis unfolding indexed_def by blast
qed

lemma restrict_to_kept:
  assumes wf: "indexed c"
  shows "(\<lambda>k. if k \<in> fst ` set (drop m (priority_queue c)) then None else cache_entries c k)
       = cache_entries c |` (fst ` set (take m (priority_queue c)))"
proof
  fix k
  let ?pq = "priority_queue c"
  have d: "distinct (map fst ?pq)" by (rule indexed_distinct [OF wf])
  have dom: "dom (cache_entries c) = fst ` set ?pq" using wf by (simp add: indexed_def)
  have "distinct (map fst (take m ?pq) @ map fst (drop m ?pq))"
    using d by (simp add: map_append [symmetric] del: map_append)
  then have disj: "fst ` set (take m ?pq) \<inter> fst ` set (drop m ?pq) = {}" by auto
  have un: "fst ` set ?pq = fst ` set (take m ?pq) \<union> fst ` set (drop m ?pq)"
    by (metis append_take_drop_id image_Un set_append)
  show "(if k \<in> fst ` set (drop m ?pq) then None else cache_entries c k)
       = (cache_entries c |` (fst ` set (take m ?pq))) k"
  proof (cases "k \<in> fst ` set (drop m ?pq)")
    case True
    with disj have "k \<notin> fst ` set (take m ?pq)" by blast
    with True show ?thesis by (simp add: restrict_map_def)
  next
    case False
    show ?thesis
    proof (cases "k \<in> fst ` set (take m ?pq)")
      case True
      with False show ?thesis by (simp add: restrict_map_def)
    next
      case no: False
      with False un have "k \<notin> fst ` set ?pq" by blast
      with dom have "cache_entries c k = None" by blast
      with False no show ?thesis by (simp add: restrict_map_def)
    qed
  qed
qed

lemma lfu_inv_set_limit: "lfu_inv c \<Longrightarrow> lfu_inv (snd (set_limit c v))"
proof -
  assume inv: "lfu_inv c"
  then have wf: "indexed c" by (simp add: lfu_inv_def)
  show ?thesis
  proof (cases "int_value v")
    case None
    then show ?thesis using inv
      by (cases v) (simp_all add: set_limit_def lfu_inv_def indexed_def within_limit_def)
  next
    case (Some n)
    consider "n < 0" | "0 \<le> n" "n < len c" | "len c \<le> n" by linarith
    then show ?thesis
    proof cases
      case 1
      with Some inv show ?thesis by (cases v) (auto simp: set_limit_def)
    next
      case 2
      let ?c' = "c\<lparr>priority_queue := take (nat n) (priority_queue c),
        cache_entries :=
          (\<lambda>k. if k \<in> fst ` set (drop (nat n) (priority_queue c))
               then None else cache_entries c k)\<rparr>"
      have a: "indexed (?c'\<lparr>limit := Some n\<rparr>)"
        using indexed_truncate [OF wf, of "nat n"] by (simp add: indexed_def)
      have b: "sorted_wrt (\<ge>) (map snd (take (nat n) (priority_queue c)))"
        using inv by (simp add: lfu_inv_def take_map [symmetric] sorted_wrt_take)
      have c: "\<forall>e \<in> set (take (nat n) (priority_queue c)). 1 \<le> snd e"
        using inv by (auto simp: lfu_inv_def dest: in_set_takeD)
      have d: "within_limit (?c'\<lparr>limit := Some n\<rparr>)"
        using 2 by (simp add: within_limit_def len_def)
      from a b c d show ?thesis
        by (simp add: set_limit_truncate [OF wf Some 2] lfu_inv_def)
    next
      case 3
      have "0 \<le> len c" by (simp add: len_def)
      with 3 have n0: "0 \<le> n" by simp
      from inv 3 n0 show ?thesis
        by (simp add: set_limit_keep [OF Some 3] lfu_inv_def indexed_def within_limit_def len_def)
    qed
  qed
qed

lemma lfu_inv_clear: "lfu_inv c \<Longrightarrow> lfu_inv (snd (clear c))"
  by (simp add: clear_def lfu_inv_def indexed_def within_limit_def len_def split: option.splits)

lemma lfu_inv_init: "init v = Inr c \<Longrightarrow> lfu_inv c"
  by (cases v) (auto simp: init_def lfu_inv_def indexed_def within_limit_def len_def
      split: if_splits)

section \<open>Adding a key, and the states a cache can reach\<close>

text \<open>
  The state after \<^verbatim>\<open>add\<close> of a new key, without and with eviction; every public call
  keeps \<open>lfu_inv\<close>, and a constructed cache satisfies it.
\<close>

lemma add_new_state:
  assumes absent: "\<not> has_cache c key"
    and room: "case limit c of None \<Rightarrow> True | Some lim \<Rightarrow> len c < lim"
  shows "add c key val update =
     (Return True,
      c\<lparr>priority_queue := priority_queue c @ [(key, 1)],
        cache_entries := (cache_entries c)(key \<mapsto> (len c, val)),
        misses := misses c + 1\<rparr>)"
proof (cases "limit c")
  case None
  with absent show ?thesis by (simp add: add_def Let_def)
next
  case (Some lim)
  with room have "len c < lim" by simp
  moreover have "0 \<le> len c" by (simp add: len_def)
  ultimately have "lim \<noteq> 0" "\<not> lim \<le> len c" by simp_all
  with absent Some show ?thesis by (simp add: add_def Let_def)
qed

lemma del_at_last: "xs \<noteq> [] \<Longrightarrow> del_at xs (length xs - Suc 0) = butlast xs"
  by (simp add: del_at_def butlast_conv_take)

lemma add_evict_state:
  assumes wf: "indexed c" and lim: "limit c = Some lim" "0 < lim" "len c = lim"
    and absent: "\<not> has_cache c key"
  shows "add c key val update =
     (Return True,
      c\<lparr>priority_queue := butlast (priority_queue c) @ [(key, 1)],
        cache_entries :=
          ((cache_entries c)(fst (last (priority_queue c)) := None))(key \<mapsto> (lim - 1, val)),
        misses := misses c + 1\<rparr>)"
proof -
  let ?pq = "priority_queue c"
  let ?q = "length ?pq - 1"
  from lim have ne: "?pq \<noteq> []" by (auto simp: len_def)
  then have q: "?q < length ?pq" by simp
  have iq: "int ?q = lim - 1" using lim ne by (simp add: len_def of_nat_diff)
  have lastq: "?pq ! ?q = last ?pq" using ne by (simp add: last_conv_nth)
  have nil: "drop (Suc ?q) ?pq = []" using ne by simp
  let ?c1 = "c\<lparr>cache_entries := (cache_entries c)(fst (last ?pq) := None),
                 priority_queue := butlast ?pq\<rparr>"
  have fn: "(\<lambda>k. if k \<in> fst ` set (drop (Suc ?q) ?pq)
                then map_option (\<lambda>(i, v). (i - 1, v)) (cache_entries c k)
                else if k = fst (?pq ! ?q) then None else cache_entries c k)
          = (cache_entries c)(fst (last ?pq) := None)"
    using ne by (auto simp: nil last_conv_nth intro!: ext)
  have rm: "remove_by_id c (lim - 1) = (Return True, ?c1)"
    using remove_slot_state(1) [OF wf q] unfolding fn iq
    by (simp add: del_at_last [OF ne])
  have ge: "lim \<le> len c" "lim \<noteq> 0" using lim by simp_all
  show ?thesis
    using absent lim(1) ge rm by (simp add: add_def Let_def lim(3))
qed

lemma lfu_inv_append:
  assumes inv: "lfu_inv c" and absent: "cache_entries c key = None"
    and room: "case limit c of None \<Rightarrow> True | Some lim \<Rightarrow> len c < lim"
  shows "lfu_inv (c\<lparr>priority_queue := priority_queue c @ [(key, 1)],
        cache_entries := (cache_entries c)(key \<mapsto> (len c, val)),
        misses := m\<rparr>)"
    (is "lfu_inv ?c'")
proof -
  let ?pq = "priority_queue c"
  from inv have wf: "indexed c" by (simp add: lfu_inv_def)
  have dom: "dom (cache_entries c) = fst ` set ?pq" using wf by (simp add: indexed_def)
  with absent have notin: "key \<notin> fst ` set ?pq" by blast
  have 1: "distinct (map fst (priority_queue ?c'))"
    using indexed_distinct [OF wf] notin by simp
  have 2: "dom (cache_entries ?c') = fst ` set (priority_queue ?c')"
    using dom by simp
  have 3: "\<exists>v. cache_entries ?c' (fst (priority_queue ?c' ! j)) = Some (int j, v)"
    if j: "j < length (priority_queue ?c')" for j
  proof (cases "j < length ?pq")
    case True
    then have "fst (?pq ! j) \<noteq> key" using notin by (metis imageI nth_mem)
    with indexed_slot [OF wf True] True show ?thesis by (simp add: nth_append)
  next
    case False
    with j have "j = length ?pq" by simp
    then show ?thesis by (simp add: len_def)
  qed
  have wf': "indexed ?c'" using 1 2 3 unfolding indexed_def by blast
  have s: "sorted_wrt (\<ge>) (map snd (priority_queue ?c'))"
    using inv by (auto simp: lfu_inv_def sorted_wrt_append)
  have pos: "\<forall>e \<in> set (priority_queue ?c'). 1 \<le> snd e"
    using inv by (auto simp: lfu_inv_def)
  have lim: "within_limit ?c'"
    using inv room by (simp add: lfu_inv_def within_limit_def len_def split: option.splits)
  from wf' s pos lim show ?thesis by (simp add: lfu_inv_def)
qed

lemma lfu_inv_overwrite:
  assumes inv: "lfu_inv c" and kv: "cache_entries c key = Some (i, v)"
  shows "lfu_inv (c\<lparr>cache_entries := (cache_entries c)(key \<mapsto> (i, val)), misses := m\<rparr>)"
    (is "lfu_inv ?c'")
proof -
  from inv have wf: "indexed c" by (simp add: lfu_inv_def)
  have 1: "distinct (map fst (priority_queue ?c'))" using indexed_distinct [OF wf] by simp
  have 2: "dom (cache_entries ?c') = fst ` set (priority_queue ?c')"
    using wf kv by (auto simp: indexed_def)
  have 3: "\<exists>w. cache_entries ?c' (fst (priority_queue ?c' ! j)) = Some (int j, w)"
    if j: "j < length (priority_queue ?c')" for j
  proof -
    from j have jl: "j < length (priority_queue c)" by simp
    from indexed_slot [OF wf jl] kv show ?thesis by auto
  qed
  have wf': "indexed ?c'" using 1 2 3 unfolding indexed_def by blast
  have lim: "within_limit ?c'"
    using inv by (simp add: lfu_inv_def within_limit_def len_def split: option.splits)
  from wf' lim inv show ?thesis by (simp add: lfu_inv_def)
qed

lemma lfu_inv_add: "lfu_inv c \<Longrightarrow> lfu_inv (snd (add c key val update))"
proof -
  assume inv: "lfu_inv c"
  then have wf: "indexed c" and wl: "within_limit c" by (simp_all add: lfu_inv_def)
  consider "limit c = Some 0" | "limit c \<noteq> Some 0" "has_cache c key" "\<not> update"
    | "limit c \<noteq> Some 0" "has_cache c key" "update"
    | "limit c \<noteq> Some 0" "\<not> has_cache c key" by blast
  then show ?thesis
  proof cases
    case 1
    with inv show ?thesis by (simp add: add_def)
  next
    case 2
    with inv show ?thesis by (simp add: add_def)
  next
    case 3
    from lfu_inv_increment [OF inv 3(2)]
    obtain c1 where r: "increment_access_count c key = (Return (), c1)"
      and i1: "lfu_inv c1" and h1: "has_cache c1 key"
      by (elim exE conjE)
    from h1 obtain i v where kv: "cache_entries c1 key = Some (i, v)"
      by (auto simp: has_cache_def)
    have "add c key val update =
        (Return True, c1\<lparr>cache_entries := (cache_entries c1)(key \<mapsto> (i, val)),
                        misses := misses c1 + 1\<rparr>)"
      using 3 r kv by (simp add: add_def Let_def)
    with lfu_inv_overwrite [OF i1 kv] show ?thesis by simp
  next
    case 4
    then have absent: "cache_entries c key = None"
      by (cases "cache_entries c key") (simp_all add: has_cache_def)
    show ?thesis
    proof (cases "case limit c of None \<Rightarrow> True | Some lim \<Rightarrow> len c < lim")
      case True
      from lfu_inv_append [OF inv absent True] show ?thesis
        by (simp add: add_new_state [OF 4(2) True])
    next
      case False
      then obtain lim where l: "limit c = Some lim" "lim \<le> len c"
        by (auto split: option.splits)
      with wl 4(1) have l': "0 < lim" "len c = lim" by (auto simp: within_limit_def)
      let ?pq = "priority_queue c"
      let ?q = "length ?pq - 1"
      from l' have ne: "?pq \<noteq> []" by (auto simp: len_def)
      then have q: "?q < length ?pq" by simp
      have lastq: "?pq ! ?q = last ?pq" using ne by (simp add: last_conv_nth)
      have nil: "drop (Suc ?q) ?pq = []" using ne by simp
      let ?c1 = "c\<lparr>cache_entries := (cache_entries c)(fst (last ?pq) := None),
                 priority_queue := butlast ?pq\<rparr>"
      have fn: "(\<lambda>k. if k \<in> fst ` set (drop (Suc ?q) ?pq)
                then map_option (\<lambda>(i, v). (i - 1, v)) (cache_entries c k)
                else if k = fst (?pq ! ?q) then None else cache_entries c k)
          = (cache_entries c)(fst (last ?pq) := None)"
        using ne by (auto simp: nil last_conv_nth intro!: ext)
      have i1: "lfu_inv ?c1"
        using lfu_inv_remove_slot [OF inv q] unfolding fn by (simp add: del_at_last [OF ne])
      have a1: "cache_entries ?c1 key = None" using absent by simp
      have r1: "case limit ?c1 of None \<Rightarrow> True | Some lim \<Rightarrow> len ?c1 < lim"
        using l l' ne by (simp add: len_def)
      have l1: "len ?c1 = lim - 1" using l' ne by (simp add: len_def of_nat_diff)
      from lfu_inv_append [OF i1 a1 r1, where val = val and m = "misses c + 1"] show ?thesis
        by (simp add: add_evict_state [OF wf l(1) l' 4(2)] l1)
    qed
  qed
qed

lemma lfu_inv_apply_op: "lfu_inv c \<Longrightarrow> lfu_inv (apply_op c op)"
  by (cases op)
    (simp_all add: lfu_inv_add lfu_inv_get lfu_inv_remove lfu_inv_clear lfu_inv_set_limit)

lemma lfu_inv_run: "lfu_inv c \<Longrightarrow> lfu_inv (run c ops)"
  unfolding run_def by (induction ops arbitrary: c) (simp_all add: lfu_inv_apply_op)

lemma reachable_inv: "init v = Inr c0 \<Longrightarrow> lfu_inv (run c0 ops)"
  by (intro lfu_inv_run lfu_inv_init)

section \<open>The invariants of reachable states\<close>

lemma init5: "init (PyInt 5) = Inr empty5"
  by (simp add: init_def empty5_def)

lemma get4_generate_cache5:
  "get generate_cache5 ''4'' d =
     (Return ''v4'',
      \<lparr>limit = Some 5,
       cache_entries = [''0'' \<mapsto> (1, ''v0''), ''1'' \<mapsto> (2, ''v1''), ''2'' \<mapsto> (3, ''v2''),
                        ''3'' \<mapsto> (4, ''v3''), ''4'' \<mapsto> (0, ''v4'')],
       priority_queue = [(''4'', 2), (''0'', 1), (''1'', 1), (''2'', 1), (''3'', 1)],
       hits = 1, misses = 5\<rparr>)"
  by (simp add: generate_cache5_eq get_def has_cache_def increment_access_count_def
      py_index_def promote_loop.simps Let_def fun_upd_twist)

text \<open>
  C1. Start from a cache the constructor returned and make any sequence of public calls
  (add, get, remove, clear, limit assignment, and the read-only ones). In the state
  reached, the access count of every slot is at least the access count of the next slot.
\<close>

theorem sort_order_invariant:
  "init limit_arg = Inr c0 \<Longrightarrow> Suc i < length (priority_queue (run c0 ops)) \<Longrightarrow>
     snd (priority_queue (run c0 ops) ! Suc i) \<le> snd (priority_queue (run c0 ops) ! i)"
proof -
  assume i: "init limit_arg = Inr c0" and l: "Suc i < length (priority_queue (run c0 ops))"
  from reachable_inv [OF i, of ops]
  have "sorted_wrt (\<ge>) (map snd (priority_queue (run c0 ops)))" by (simp add: lfu_inv_def)
  with l show ?thesis by (simp add: sorted_wrt_map sorted_wrt_iff_nth_less)
qed

theorem sort_order_invariant_witness:
  "init (PyInt 5) = Inr empty5
   \<and> Suc 0 < length (priority_queue (run empty5
        [Add ''0'' ''v0'' False, Add ''1'' ''v1'' False, Add ''2'' ''v2'' False,
         Add ''3'' ''v3'' False, Add ''4'' ''v4'' False, Get ''4'' ''d'']))
   \<and> snd (priority_queue (run empty5
        [Add ''0'' ''v0'' False, Add ''1'' ''v1'' False, Add ''2'' ''v2'' False,
         Add ''3'' ''v3'' False, Add ''4'' ''v4'' False, Get ''4'' ''d'']) ! Suc 0)
     \<le> snd (priority_queue (run empty5
        [Add ''0'' ''v0'' False, Add ''1'' ''v1'' False, Add ''2'' ''v2'' False,
         Add ''3'' ''v3'' False, Add ''4'' ''v4'' False, Get ''4'' ''d'']) ! 0)"
proof -
  let ?ops = "[Add ''0'' ''v0'' False, Add ''1'' ''v1'' False, Add ''2'' ''v2'' False,
         Add ''3'' ''v3'' False, Add ''4'' ''v4'' False, Get ''4'' ''d'']"
  have "run empty5 ?ops = snd (get generate_cache5 ''4'' ''d'')"
    by (simp add: generate_cache5_def run_def)
  then have l: "Suc 0 < length (priority_queue (run empty5 ?ops))"
    by (simp add: get4_generate_cache5)
  from init5 l sort_order_invariant [OF init5 l] show ?thesis by blast
qed

text \<open>
  C2. In every state reached from a constructed cache by public calls, the index has as
  many keys as the queue has slots, every key of the index is sent to a slot of the queue
  that holds this key, every slot's key is sent by the index to this very slot, and no
  key sits in two slots.
\<close>

theorem bijection_invariant:
  "init limit_arg = Inr c0 \<Longrightarrow> c = run c0 ops \<Longrightarrow>
     card (dom (cache_entries c)) = length (priority_queue c)
     \<and> (\<forall>k i v. cache_entries c k = Some (i, v) \<longrightarrow>
           0 \<le> i \<and> i < len c \<and> fst (priority_queue c ! nat i) = k)
     \<and> (\<forall>j < length (priority_queue c).
           \<exists>v. cache_entries c (fst (priority_queue c ! j)) = Some (int j, v))
     \<and> distinct (map fst (priority_queue c))"
proof -
  assume i: "init limit_arg = Inr c0" and c: "c = run c0 ops"
  from reachable_inv [OF i, of ops] c have wf: "indexed c" by (simp add: lfu_inv_def)
  have d: "distinct (map fst (priority_queue c))" by (rule indexed_distinct [OF wf])
  have "dom (cache_entries c) = set (map fst (priority_queue c))"
    using wf by (simp add: indexed_def)
  then have 1: "card (dom (cache_entries c)) = length (priority_queue c)"
    using distinct_card [OF d] by simp
  have 2: "0 \<le> i \<and> i < len c \<and> fst (priority_queue c ! nat i) = k"
    if "cache_entries c k = Some (i, v)" for k i v
    using indexed_lookup [OF wf that] by (auto simp: len_def)
  from 1 2 indexed_slot [OF wf] d show ?thesis by blast
qed

theorem bijection_invariant_witness:
  "init (PyInt 5) = Inr empty5
   \<and> card (dom (cache_entries (run empty5
        [Add ''0'' ''v0'' False, Add ''1'' ''v1'' False, Add ''2'' ''v2'' False,
         Add ''3'' ''v3'' False, Add ''4'' ''v4'' False, Get ''4'' ''d'']))) = 5
   \<and> cache_entries (run empty5
        [Add ''0'' ''v0'' False, Add ''1'' ''v1'' False, Add ''2'' ''v2'' False,
         Add ''3'' ''v3'' False, Add ''4'' ''v4'' False, Get ''4'' ''d'']) ''4'' = Some (0, ''v4'')
   \<and> fst (priority_queue (run empty5
        [Add ''0'' ''v0'' False, Add ''1'' ''v1'' False, Add ''2'' ''v2'' False,
         Add ''3'' ''v3'' False, Add ''4'' ''v4'' False, Get ''4'' ''d'']) ! nat 0) = ''4''"
proof -
  let ?ops = "[Add ''0'' ''v0'' False, Add ''1'' ''v1'' False, Add ''2'' ''v2'' False,
         Add ''3'' ''v3'' False, Add ''4'' ''v4'' False, Get ''4'' ''d'']"
  have r: "run empty5 ?ops = snd (get generate_cache5 ''4'' ''d'')"
    by (simp add: generate_cache5_def run_def)
  have l: "length (priority_queue (run empty5 ?ops)) = 5"
    and e: "cache_entries (run empty5 ?ops) ''4'' = Some (0, ''v4'')"
    by (simp_all add: r get4_generate_cache5)
  from bijection_invariant [OF init5 refl, of ?ops] l e init5 show ?thesis
    by (metis (no_types, lifting))
qed

text \<open>
  C5. In every state reached from a constructed cache by public calls, a limit that is an
  integer bounds the number of stored entries. With a limit of 0, \<^verbatim>\<open>add\<close> returns \<^verbatim>\<open>False\<close>
  and stores nothing, whatever the state and the arguments.
\<close>

theorem capacity_invariant:
  "(init limit_arg = Inr c0 \<and> limit (run c0 ops) = Some n \<longrightarrow> len (run c0 ops) \<le> n)
   \<and> (limit c = Some 0 \<longrightarrow> add c key val update = (Return False, c))"
proof -
  have "len (run c0 ops) \<le> n" if "init limit_arg = Inr c0" "limit (run c0 ops) = Some n"
    using reachable_inv [OF that(1), of ops] that(2)
    by (simp add: lfu_inv_def within_limit_def)
  moreover have "add c key val update = (Return False, c)" if "limit c = Some 0"
    using that by (simp add: add_def)
  ultimately show ?thesis by blast
qed

theorem capacity_invariant_witness:
  "init (PyInt 5) = Inr empty5
   \<and> limit (run empty5
        [Add ''0'' ''v0'' False, Add ''1'' ''v1'' False, Add ''2'' ''v2'' False,
         Add ''3'' ''v3'' False, Add ''4'' ''v4'' False, Get ''4'' ''d'']) = Some 5
   \<and> len (run empty5
        [Add ''0'' ''v0'' False, Add ''1'' ''v1'' False, Add ''2'' ''v2'' False,
         Add ''3'' ''v3'' False, Add ''4'' ''v4'' False, Get ''4'' ''d'']) \<le> 5
   \<and> limit (empty5\<lparr>limit := Some 0\<rparr>) = Some 0
   \<and> add (empty5\<lparr>limit := Some 0\<rparr>) ''k'' ''v'' True = (Return False, empty5\<lparr>limit := Some 0\<rparr>)"
proof -
  let ?ops = "[Add ''0'' ''v0'' False, Add ''1'' ''v1'' False, Add ''2'' ''v2'' False,
         Add ''3'' ''v3'' False, Add ''4'' ''v4'' False, Get ''4'' ''d'']"
  have r: "run empty5 ?ops = snd (get generate_cache5 ''4'' ''d'')"
    by (simp add: generate_cache5_def run_def)
  have l: "limit (run empty5 ?ops) = Some 5"
    by (simp add: r get4_generate_cache5)
  have z: "limit (empty5\<lparr>limit := Some 0\<rparr>) = Some 0" by simp
  from capacity_invariant [of "PyInt 5" empty5 ?ops 5 "empty5\<lparr>limit := Some 0\<rparr>" "''k''" "''v''" True]
    init5 l z show ?thesis by blast
qed

section \<open>Eviction\<close>

lemma indexed_generate_cache5: "indexed generate_cache5"
proof -
  have "lfu_inv (run empty5 [Add ''0'' ''v0'' False, Add ''1'' ''v1'' False,
          Add ''2'' ''v2'' False, Add ''3'' ''v3'' False, Add ''4'' ''v4'' False])"
    by (rule reachable_inv [OF init5])
  then show ?thesis by (simp add: generate_cache5_def lfu_inv_def)
qed

text \<open>
  C3. Take a well-formed cache whose size equals its limit \<open>n > 0\<close> and a key that is not
  in it. \<^verbatim>\<open>add\<close> returns \<^verbatim>\<open>True\<close>; the queue loses its last slot (slot \<open>n - 1\<close>) and gets the
  new key with access count 1 in that place, all other slots staying where they were;
  the index drops the evicted key and sends the new key to slot \<open>n - 1\<close>; the size is
  still \<open>n\<close>. On the cache of limit 5 seeded with \<^verbatim>\<open>"0"\<close> to \<^verbatim>\<open>"4"\<close>, adding
  \<^verbatim>\<open>"over_limit_key"\<close> keeps five entries, with \<^verbatim>\<open>"0"\<close> to \<^verbatim>\<open>"3"\<close> in slots 0 to 3 and
  the new key in slot 4.
\<close>

theorem eviction_correct:
  "(indexed c \<and> limit c = Some n \<and> 0 < n \<and> len c = n \<and> \<not> has_cache c key \<longrightarrow>
      (\<exists>c'. add c key val update = (Return True, c')
         \<and> priority_queue c' = butlast (priority_queue c) @ [(key, 1)]
         \<and> cache_entries c' =
              ((cache_entries c)(fst (last (priority_queue c)) := None))(key \<mapsto> (n - 1, val))
         \<and> len c' = n
         \<and> (\<forall>j. int j < n - 1 \<longrightarrow> priority_queue c' ! j = priority_queue c ! j)
         \<and> priority_queue c' ! nat (n - 1) = (key, 1)
         \<and> \<not> has_cache c' (fst (priority_queue c ! nat (n - 1)))))
   \<and> init (PyInt 5) = Inr empty5
   \<and> generate_cache5 = run empty5 [Add ''0'' ''v0'' False, Add ''1'' ''v1'' False,
          Add ''2'' ''v2'' False, Add ''3'' ''v3'' False, Add ''4'' ''v4'' False]
   \<and> retrieve generate_cache5 None None =
        Return [(''0'', ''v0'', 1), (''1'', ''v1'', 1), (''2'', ''v2'', 1),
                (''3'', ''v3'', 1), (''4'', ''v4'', 1)]
   \<and> retrieve (snd (add generate_cache5 ''over_limit_key'' w False)) None None =
        Return [(''0'', ''v0'', 1), (''1'', ''v1'', 1), (''2'', ''v2'', 1),
                (''3'', ''v3'', 1), (''over_limit_key'', w, 1)]
   \<and> len (snd (add generate_cache5 ''over_limit_key'' w False)) = 5"
proof -
  have general: "\<exists>c'. add c key val update = (Return True, c')
         \<and> priority_queue c' = butlast (priority_queue c) @ [(key, 1)]
         \<and> cache_entries c' =
              ((cache_entries c)(fst (last (priority_queue c)) := None))(key \<mapsto> (n - 1, val))
         \<and> len c' = n
         \<and> (\<forall>j. int j < n - 1 \<longrightarrow> priority_queue c' ! j = priority_queue c ! j)
         \<and> priority_queue c' ! nat (n - 1) = (key, 1)
         \<and> \<not> has_cache c' (fst (priority_queue c ! nat (n - 1)))"
    if h: "indexed c" "limit c = Some n" "0 < n" "len c = n" "\<not> has_cache c key"
  proof -
    let ?pq = "priority_queue c"
    let ?c' = "c\<lparr>priority_queue := butlast ?pq @ [(key, 1)],
        cache_entries := ((cache_entries c)(fst (last ?pq) := None))(key \<mapsto> (n - 1, val)),
        misses := misses c + 1\<rparr>"
    from h have ne: "?pq \<noteq> []" and n: "n = int (length ?pq)" by (auto simp: len_def)
    have lastn: "?pq ! nat (n - 1) = last ?pq"
      using ne n by (simp add: last_conv_nth nat_diff_distrib')
    have "last ?pq \<in> set ?pq" using ne by simp
    then have "fst (last ?pq) \<in> dom (cache_entries c)"
      using h(1) by (auto simp: indexed_def)
    with h(5) have differ: "fst (last ?pq) \<noteq> key" by (auto simp: has_cache_def)
    have 1: "add c key val update = (Return True, ?c')"
      by (rule add_evict_state [OF h])
    have 2: "len ?c' = n" using ne n by (simp add: len_def)
    have 3: "priority_queue ?c' ! j = ?pq ! j" if "int j < n - 1" for j
    proof -
      from that n have "j < length ?pq - 1" by linarith
      then show ?thesis by (simp add: nth_append nth_butlast)
    qed
    have 4: "priority_queue ?c' ! nat (n - 1) = (key, 1)"
      using n ne by (simp add: nth_append nat_diff_distrib')
    have 5: "\<not> has_cache ?c' (fst (?pq ! nat (n - 1)))"
      using differ by (simp add: has_cache_def lastn)
    from 1 2 3 4 5 show ?thesis by (intro exI [of _ ?c']) simp
  qed
  have a: "retrieve generate_cache5 None None =
        Return [(''0'', ''v0'', 1), (''1'', ''v1'', 1), (''2'', ''v2'', 1),
                (''3'', ''v3'', 1), (''4'', ''v4'', 1)]"
    by (simp add: generate_cache5_eq retrieve_def py_slice_all)
  have st: "add generate_cache5 ''over_limit_key'' w False =
     (Return True,
      generate_cache5\<lparr>priority_queue := butlast (priority_queue generate_cache5)
                                          @ [(''over_limit_key'', 1)],
        cache_entries :=
          ((cache_entries generate_cache5)(fst (last (priority_queue generate_cache5)) := None))
            (''over_limit_key'' \<mapsto> (5 - 1, w)),
        misses := misses generate_cache5 + 1\<rparr>)"
    by (rule add_evict_state [OF indexed_generate_cache5])
      (simp_all add: generate_cache5_eq len_def has_cache_def)
  have b: "retrieve (snd (add generate_cache5 ''over_limit_key'' w False)) None None =
        Return [(''0'', ''v0'', 1), (''1'', ''v1'', 1), (''2'', ''v2'', 1),
                (''3'', ''v3'', 1), (''over_limit_key'', w, 1)]"
    unfolding st by (simp add: generate_cache5_eq retrieve_def py_slice_all)
  have c: "len (snd (add generate_cache5 ''over_limit_key'' w False)) = 5"
    unfolding st by (simp add: generate_cache5_eq len_def)
  from general init5 a b c show ?thesis
    by (simp add: generate_cache5_def)
qed

theorem eviction_correct_witness:
  "indexed generate_cache5 \<and> limit generate_cache5 = Some 5 \<and> (0::int) < 5
   \<and> len generate_cache5 = 5 \<and> \<not> has_cache generate_cache5 ''over_limit_key''
   \<and> (\<exists>c'. add generate_cache5 ''over_limit_key'' ''x'' False = (Return True, c')
         \<and> priority_queue c' = butlast (priority_queue generate_cache5) @ [(''over_limit_key'', 1)]
         \<and> len c' = 5)"
proof -
  have h: "limit generate_cache5 = Some 5" "len generate_cache5 = 5"
    "\<not> has_cache generate_cache5 ''over_limit_key''"
    by (simp_all add: generate_cache5_eq len_def has_cache_def)
  from eviction_correct [of generate_cache5 5 "''over_limit_key''" "''x''" False]
    indexed_generate_cache5 h
  show ?thesis by auto
qed

section \<open>Truncation\<close>

text \<open>
  C6. On a well-formed cache, assigning a limit \<open>n\<close> with \<open>0 \<le> n < len\<close> returns normally,
  keeps the first \<open>n\<close> slots of the queue in their order, keeps in the index exactly the
  entries of the keys in those slots, and stores the limit; the size is then \<open>n\<close>, so a
  limit of 0 empties a non-empty cache. In every state, a limit at or above the size, or
  \<^verbatim>\<open>None\<close>, changes nothing but the stored limit.
\<close>

theorem resize_down_truncates:
  "(indexed c \<and> int_value v = Some n \<and> 0 \<le> n \<and> n < len c \<longrightarrow>
      set_limit c v =
        (Return (),
         c\<lparr>priority_queue := take (nat n) (priority_queue c),
           cache_entries := cache_entries c |` (fst ` set (take (nat n) (priority_queue c))),
           limit := Some n\<rparr>)
      \<and> len (snd (set_limit c v)) = n)
   \<and> (indexed c \<and> priority_queue c \<noteq> [] \<longrightarrow> len (snd (set_limit c (PyInt 0))) = 0)
   \<and> (int_value v = Some n \<and> len c \<le> n \<longrightarrow>
        set_limit c v = (Return (), c\<lparr>limit := Some n\<rparr>))
   \<and> set_limit c PyNone = (Return (), c\<lparr>limit := None\<rparr>)"
proof -
  have down: "set_limit c v =
        (Return (),
         c\<lparr>priority_queue := take (nat n) (priority_queue c),
           cache_entries := cache_entries c |` (fst ` set (take (nat n) (priority_queue c))),
           limit := Some n\<rparr>)
      \<and> len (snd (set_limit c v)) = n"
    if h: "indexed c" "int_value v = Some n" "0 \<le> n" "n < len c" for v n
  proof -
    from h(3,4) have "min (length (priority_queue c)) (nat n) = nat n"
      by (simp add: len_def)
    with h(3) show ?thesis
      by (simp add: set_limit_truncate [OF h] restrict_to_kept [OF h(1)] len_def)
  qed
  have zero: "len (snd (set_limit c (PyInt 0))) = 0"
    if "indexed c" "priority_queue c \<noteq> []"
  proof -
    from that(2) have "0 < len c" by (simp add: len_def)
    with down [of "PyInt 0" 0] that(1) show ?thesis by (simp add: len_def)
  qed
  from down zero set_limit_keep set_limit_none show ?thesis by blast
qed

theorem resize_down_truncates_witness:
  "indexed generate_cache5 \<and> int_value (PyInt 2) = Some 2 \<and> (0::int) \<le> 2
   \<and> 2 < len generate_cache5 \<and> priority_queue generate_cache5 \<noteq> []
   \<and> priority_queue (snd (set_limit generate_cache5 (PyInt 2))) = [(''0'', 1), (''1'', 1)]
   \<and> dom (cache_entries (snd (set_limit generate_cache5 (PyInt 2)))) = {''0'', ''1''}
   \<and> len (snd (set_limit generate_cache5 (PyInt 0))) = 0
   \<and> int_value (PyInt 7) = Some 7 \<and> len generate_cache5 \<le> 7
   \<and> set_limit generate_cache5 (PyInt 7) = (Return (), generate_cache5\<lparr>limit := Some 7\<rparr>)"
proof -
  have h: "2 < len generate_cache5" "priority_queue generate_cache5 \<noteq> []"
    "len generate_cache5 \<le> 7"
    by (simp_all add: generate_cache5_eq len_def)
  have tk: "take (nat 2) (priority_queue generate_cache5) = [(''0'', 1), (''1'', 1)]"
    by (simp add: generate_cache5_eq)
  have dm: "dom (cache_entries generate_cache5) = {''0'', ''1'', ''2'', ''3'', ''4''}"
    by (auto simp: generate_cache5_eq)
  from resize_down_truncates [of generate_cache5 "PyInt 2" 2] indexed_generate_cache5 h(1)
  have a: "set_limit generate_cache5 (PyInt 2) =
        (Return (),
         generate_cache5\<lparr>priority_queue := take (nat 2) (priority_queue generate_cache5),
           cache_entries := cache_entries generate_cache5
              |` (fst ` set (take (nat 2) (priority_queue generate_cache5))),
           limit := Some 2\<rparr>)"
    by simp
  have a1: "priority_queue (snd (set_limit generate_cache5 (PyInt 2))) = [(''0'', 1), (''1'', 1)]"
    unfolding a using tk by simp
  have a2: "dom (cache_entries (snd (set_limit generate_cache5 (PyInt 2)))) = {''0'', ''1''}"
    unfolding a using tk dm by auto
  from resize_down_truncates [of generate_cache5 "PyInt 2" 2] indexed_generate_cache5 h(2)
  have b: "len (snd (set_limit generate_cache5 (PyInt 0))) = 0" by blast
  from resize_down_truncates [of generate_cache5 "PyInt 7" 7] h(3)
  have c: "set_limit generate_cache5 (PyInt 7) = (Return (), generate_cache5\<lparr>limit := Some 7\<rparr>)"
    by simp
  from indexed_generate_cache5 h a1 a2 b c show ?thesis by simp
qed

section \<open>Promotion\<close>

lemma promoted_list:
  assumes q: "q < length xs" and p: "p \<le> q" and len: "length ys = length xs"
    and nth: "\<forall>j < length xs. ys ! j =
                (if j < p then xs ! j else if j = p then x
                 else if j \<le> q then xs ! (j - 1) else xs ! j)"
  shows "ys = take p xs @ x # take (q - p) (drop p xs) @ drop (Suc q) xs"
proof (rule nth_equalityI)
  show "length ys = length (take p xs @ x # take (q - p) (drop p xs) @ drop (Suc q) xs)"
    using q p len by (auto simp: min_def)
next
  fix j assume "j < length ys"
  then have jl: "j < length xs" by (simp add: len)
  with nth have eq: "ys ! j = (if j < p then xs ! j else if j = p then x
                 else if j \<le> q then xs ! (j - 1) else xs ! j)" by simp
  have lp: "length (take p xs) = p" using p q by simp
  have lm: "length (take (q - p) (drop p xs)) = q - p" using p q by simp
  consider "j < p" | "j = p" | "p < j" "j \<le> q" | "q < j" by linarith
  then show "ys ! j = (take p xs @ x # take (q - p) (drop p xs) @ drop (Suc q) xs) ! j"
  proof cases
    case 1
    with eq lp show ?thesis by (simp add: nth_append)
  next
    case 2
    with eq lp show ?thesis by (simp add: nth_append)
  next
    case 3
    define d where "d = j - Suc p"
    from 3 have d: "j = p + Suc d" "d < q - p" by (simp_all add: d_def)
    have "(take p xs @ x # take (q - p) (drop p xs) @ drop (Suc q) xs) ! j
            = (take (q - p) (drop p xs) @ drop (Suc q) xs) ! d"
      using d lp by (simp add: nth_append)
    also have "\<dots> = xs ! (p + d)"
      using d lm q by (simp add: nth_append)
    finally show ?thesis using eq 3 d by simp
  next
    case 4
    define d where "d = j - Suc q"
    from 4 have d: "j = Suc q + d" by (simp add: d_def)
    have "(take p xs @ x # take (q - p) (drop p xs) @ drop (Suc q) xs) ! j
            = (take (q - p) (drop p xs) @ drop (Suc q) xs) ! (q - p + d)"
      using d lp p by (simp add: nth_append)
    also have "\<dots> = xs ! (Suc q + d)"
      using d lm jl by (simp add: nth_append)
    finally show ?thesis using eq 4 d p by simp
  qed
qed

lemma stop_slot_unique:
  fixes f :: "nat \<Rightarrow> int"
  assumes "p1 \<le> q" "p2 \<le> q"
    and "\<forall>j. p1 \<le> j \<and> j < q \<longrightarrow> f j \<le> m" "p1 = 0 \<or> m + 1 \<le> f (p1 - 1)"
    and "\<forall>j. p2 \<le> j \<and> j < q \<longrightarrow> f j \<le> m" "p2 = 0 \<or> m + 1 \<le> f (p2 - 1)"
  shows "p1 = p2"
proof (rule ccontr)
  assume "p1 \<noteq> p2"
  then consider "p1 < p2" | "p2 < p1" by linarith
  then show False
  proof cases
    case 1
    then have "p1 \<le> p2 - 1" "p2 - 1 < q" "p2 \<noteq> 0" using assms(2) by simp_all
    with assms(3,6) have "f (p2 - 1) \<le> m" "m + 1 \<le> f (p2 - 1)" by blast+
    then show False by simp
  next
    case 2
    then have "p2 \<le> p1 - 1" "p1 - 1 < q" "p1 \<noteq> 0" using assms(1) by simp_all
    with assms(5,4) have "f (p1 - 1) \<le> m" "m + 1 \<le> f (p1 - 1)" by blast+
    then show False by simp
  qed
qed

text \<open>
  C4. Take a well-formed cache that holds \<open>key\<close> in slot \<open>q\<close> with access count \<open>n\<close>.
  \<^verbatim>\<open>get\<close> returns the stored value, counts one hit and moves the entry, now with count
  \<open>n + 1\<close>, to a slot \<open>p \<le> q\<close>: the slots before \<open>p\<close> and after \<open>q\<close> are untouched, the
  entries of the old slots \<open>p\<close> to \<open>q - 1\<close> each move one slot down in the same order,
  every one of them has a count strictly below \<open>n + 1\<close>, and \<open>p\<close> is 0 or the entry
  before \<open>p\<close> has a count of at least \<open>n + 1\<close> (so an equal count is never passed). When
  the limit is not 0, \<^verbatim>\<open>add\<close> with \<^verbatim>\<open>update\<close> set does the same to the queue, returns \<^verbatim>\<open>True\<close>
  and stores the new value. On the cache of limit 5 seeded with \<^verbatim>\<open>"0"\<close> to \<^verbatim>\<open>"4"\<close>, one
  \<^verbatim>\<open>get("4")\<close> puts \<^verbatim>\<open>"4"\<close> with count 2 in slot 0, followed by \<^verbatim>\<open>"0"\<close> to \<^verbatim>\<open>"3"\<close>.
\<close>

theorem promotion_correct:
  "(indexed c \<and> cache_entries c key = Some (i, v) \<longrightarrow>
      (\<exists>p c'. p \<le> nat i
         \<and> (\<forall>j. p \<le> j \<and> j < nat i \<longrightarrow>
               snd (priority_queue c ! j) < snd (priority_queue c ! nat i) + 1)
         \<and> (p = 0 \<or> snd (priority_queue c ! nat i) + 1 \<le> snd (priority_queue c ! (p - 1)))
         \<and> get c key d = (Return v, c')
         \<and> priority_queue c' =
              take p (priority_queue c) @ (key, snd (priority_queue c ! nat i) + 1)
                # take (nat i - p) (drop p (priority_queue c)) @ drop (Suc (nat i)) (priority_queue c)
         \<and> cache_entries c' key = Some (int p, v)
         \<and> hits c' = hits c + 1
         \<and> (limit c \<noteq> Some 0 \<longrightarrow>
              (\<exists>c''. add c key val True = (Return True, c'')
                 \<and> priority_queue c'' = priority_queue c'
                 \<and> cache_entries c'' key = Some (int p, val)))))
   \<and> init (PyInt 5) = Inr empty5
   \<and> generate_cache5 = run empty5 [Add ''0'' ''v0'' False, Add ''1'' ''v1'' False,
          Add ''2'' ''v2'' False, Add ''3'' ''v3'' False, Add ''4'' ''v4'' False]
   \<and> retrieve generate_cache5 None None =
        Return [(''0'', ''v0'', 1), (''1'', ''v1'', 1), (''2'', ''v2'', 1),
                (''3'', ''v3'', 1), (''4'', ''v4'', 1)]
   \<and> fst (get generate_cache5 ''4'' w) = Return ''v4''
   \<and> retrieve (snd (get generate_cache5 ''4'' w)) None None =
        Return [(''4'', ''v4'', 2), (''0'', ''v0'', 1), (''1'', ''v1'', 1),
                (''2'', ''v2'', 1), (''3'', ''v3'', 1)]"
proof -
  have general: "\<exists>p c'. p \<le> nat i
         \<and> (\<forall>j. p \<le> j \<and> j < nat i \<longrightarrow>
               snd (priority_queue c ! j) < snd (priority_queue c ! nat i) + 1)
         \<and> (p = 0 \<or> snd (priority_queue c ! nat i) + 1 \<le> snd (priority_queue c ! (p - 1)))
         \<and> get c key d = (Return v, c')
         \<and> priority_queue c' =
              take p (priority_queue c) @ (key, snd (priority_queue c ! nat i) + 1)
                # take (nat i - p) (drop p (priority_queue c)) @ drop (Suc (nat i)) (priority_queue c)
         \<and> cache_entries c' key = Some (int p, v)
         \<and> hits c' = hits c + 1
         \<and> (limit c \<noteq> Some 0 \<longrightarrow>
              (\<exists>c''. add c key val True = (Return True, c'')
                 \<and> priority_queue c'' = priority_queue c'
                 \<and> cache_entries c'' key = Some (int p, val)))"
    if wf: "indexed c" and kv: "cache_entries c key = Some (i, v)"
  proof -
    let ?pq = "priority_queue c"
    let ?x = "(key, snd (?pq ! nat i) + 1)"
    let ?c1 = "c\<lparr>hits := hits c + 1\<rparr>"
    from indexed_lookup [OF wf kv] have q: "nat i < length ?pq" by simp
    have wf1: "indexed ?c1" using wf by (simp add: indexed_def)
    have kv1: "cache_entries ?c1 key = Some (i, v)" using kv by simp
    have pq1: "priority_queue ?c1 = ?pq" by simp
    from increment_access_count_spec [OF wf1 kv1, unfolded pq1]
    obtain p cg where p: "p \<le> nat i"
      and run_g: "increment_access_count ?c1 key = (Return (), cg)"
      and len_g: "length (priority_queue cg) = length ?pq"
      and nth_g: "\<forall>j < length ?pq. priority_queue cg ! j =
             (if j < p then ?pq ! j else if j = p then ?x
              else if j \<le> nat i then ?pq ! (j - 1) else ?pq ! j)"
      and passed: "\<forall>j. p \<le> j \<and> j < nat i \<longrightarrow> snd (?pq ! j) \<le> snd (?pq ! nat i)"
      and stopped: "p = 0 \<or> snd (?pq ! nat i) + 1 \<le> snd (?pq ! (p - 1))"
      and key_g: "cache_entries cg key = Some (int p, v)"
      by blast
    have has: "has_cache c key" using kv by (simp add: has_cache_def)
    have 1: "get c key d = (Return v, cg)"
      using has run_g key_g by (simp add: get_def Let_def)
    have 2: "priority_queue cg = take p ?pq @ ?x # take (nat i - p) (drop p ?pq)
                                   @ drop (Suc (nat i)) ?pq"
      by (rule promoted_list [OF q p len_g nth_g])
    have 3: "hits cg = hits c + 1"
      using increment_access_count_frame [OF run_g] by simp
    have 4: "\<exists>c''. add c key val True = (Return True, c'')
                 \<and> priority_queue c'' = priority_queue cg
                 \<and> cache_entries c'' key = Some (int p, val)"
      if lim: "limit c \<noteq> Some 0"
    proof -
      from increment_access_count_spec [OF wf kv]
      obtain p' ca where p': "p' \<le> nat i"
        and run_a: "increment_access_count c key = (Return (), ca)"
        and len_a: "length (priority_queue ca) = length ?pq"
        and nth_a: "\<forall>j < length ?pq. priority_queue ca ! j =
             (if j < p' then ?pq ! j else if j = p' then ?x
              else if j \<le> nat i then ?pq ! (j - 1) else ?pq ! j)"
        and passed': "\<forall>j. p' \<le> j \<and> j < nat i \<longrightarrow> snd (?pq ! j) \<le> snd (?pq ! nat i)"
        and stopped': "p' = 0 \<or> snd (?pq ! nat i) + 1 \<le> snd (?pq ! (p' - 1))"
        and key_a: "cache_entries ca key = Some (int p', v)"
        by blast
      have same: "p' = p"
        by (rule stop_slot_unique [OF p' p passed' stopped' passed stopped])
      have "priority_queue ca = take p ?pq @ ?x # take (nat i - p) (drop p ?pq)
                                   @ drop (Suc (nat i)) ?pq"
        using promoted_list [OF q p' len_a nth_a] same by simp
      then have pq_a: "priority_queue ca = priority_queue cg" using 2 by simp
      let ?c'' = "ca\<lparr>cache_entries := (cache_entries ca)(key \<mapsto> (int p, val)),
                     misses := misses ca + 1\<rparr>"
      have "add c key val True = (Return True, ?c'')"
        using lim has run_a key_a same by (simp add: add_def Let_def)
      moreover have "priority_queue ?c'' = priority_queue cg" using pq_a by simp
      moreover have "cache_entries ?c'' key = Some (int p, val)" by simp
      ultimately show ?thesis by blast
    qed
    have 5: "\<forall>j. p \<le> j \<and> j < nat i \<longrightarrow> snd (?pq ! j) < snd (?pq ! nat i) + 1"
      using passed by auto
    from p 5 stopped 1 2 key_g 3 4 show ?thesis by blast
  qed
  have a: "retrieve generate_cache5 None None =
        Return [(''0'', ''v0'', 1), (''1'', ''v1'', 1), (''2'', ''v2'', 1),
                (''3'', ''v3'', 1), (''4'', ''v4'', 1)]"
    by (simp add: generate_cache5_eq retrieve_def py_slice_all)
  have b: "fst (get generate_cache5 ''4'' w) = Return ''v4''"
    by (simp add: get4_generate_cache5)
  have c: "retrieve (snd (get generate_cache5 ''4'' w)) None None =
        Return [(''4'', ''v4'', 2), (''0'', ''v0'', 1), (''1'', ''v1'', 1),
                (''2'', ''v2'', 1), (''3'', ''v3'', 1)]"
    by (simp add: get4_generate_cache5 retrieve_def py_slice_all)
  from general init5 a b c show ?thesis
    by (simp add: generate_cache5_def)
qed

theorem promotion_correct_witness:
  "indexed generate_cache5 \<and> cache_entries generate_cache5 ''4'' = Some (4, ''v4'')
   \<and> limit generate_cache5 \<noteq> Some 0
   \<and> (\<exists>p c'. p \<le> nat 4
         \<and> get generate_cache5 ''4'' ''d'' = (Return ''v4'', c')
         \<and> cache_entries c' ''4'' = Some (int p, ''v4'')
         \<and> (\<exists>c''. add generate_cache5 ''4'' ''new'' True = (Return True, c'')
                 \<and> priority_queue c'' = priority_queue c'
                 \<and> cache_entries c'' ''4'' = Some (int p, ''new'')))"
proof -
  have h: "cache_entries generate_cache5 ''4'' = Some (4, ''v4'')"
    "limit generate_cache5 \<noteq> Some 0"
    by (simp_all add: generate_cache5_eq)
  from promotion_correct [of generate_cache5 "''4''" 4 "''v4''" "''d''" "''new''"]
    indexed_generate_cache5 h
  obtain p c' where "p \<le> nat 4" "get generate_cache5 ''4'' ''d'' = (Return ''v4'', c')"
    "cache_entries c' ''4'' = Some (int p, ''v4'')"
    "\<exists>c''. add generate_cache5 ''4'' ''new'' True = (Return True, c'')
                 \<and> priority_queue c'' = priority_queue c'
                 \<and> cache_entries c'' ''4'' = Some (int p, ''new'')"
    by blast
  with indexed_generate_cache5 h show ?thesis by blast
qed

section \<open>Which calls take the lock\<close>

text \<open>
  C10 (as the code has it). Called with the lock free, the limit setter, \<^verbatim>\<open>clear\<close>, \<^verbatim>\<open>add\<close>,
  \<^verbatim>\<open>has_cache\<close>, \<^verbatim>\<open>get\<close> and \<^verbatim>\<open>remove\<close> take the lock first, free it last and hold it
  all the way in between, in every state and for every argument. \<^verbatim>\<open>__len__\<close>, \<^verbatim>\<open>retrieve\<close>
  and the getters of \<^verbatim>\<open>limit\<close>, \<^verbatim>\<open>hits\<close> and \<^verbatim>\<open>misses\<close> never touch the lock.
\<close>

theorem locking_operations:
  "holds_lock (locks c (Add key val update))
   \<and> holds_lock (locks c (Get key default_value))
   \<and> holds_lock (locks c (Remove key))
   \<and> holds_lock (locks c Clear)
   \<and> holds_lock (locks c (SetLimit new_limit))
   \<and> holds_lock (locks c (HasCache key))
   \<and> locks c Len = []
   \<and> locks c (Retrieve start stop) = []
   \<and> locks c GetLimit = [] \<and> locks c Hits = [] \<and> locks c Misses = []"
  by (simp add: holds_lock_def add_locks_def get_locks_def remove_locks_def clear_locks_def
      set_limit_locks_def has_cache_locks_def len_locks_def retrieve_locks_def
      remove_by_id_locks_def increment_access_count_locks_def with_lock_def
      split: option.splits)

theorem locking_operations_witness:
  "locks generate_cache5 (Add ''over_limit_key'' ''x'' False)
     = [Acquire, Acquire, Release, Acquire, Release, Release]
   \<and> levels 0 (locks generate_cache5 (Add ''over_limit_key'' ''x'' False))
     = Some [1, 2, 1, 2, 1, 0]
   \<and> holds_lock (locks generate_cache5 (Add ''over_limit_key'' ''x'' False))
   \<and> locks generate_cache5 Len = []"
proof -
  have a: "locks generate_cache5 (Add ''over_limit_key'' ''x'' False)
     = [Acquire, Acquire, Release, Acquire, Release, Release]"
    by (simp add: generate_cache5_eq add_locks_def has_cache_locks_def len_locks_def
        remove_by_id_locks_def with_lock_def has_cache_def len_def)
  have b: "levels 0 (locks generate_cache5 (Add ''over_limit_key'' ''x'' False))
     = Some [1, 2, 1, 2, 1, 0]"
    unfolding a by simp
  from a b locking_operations [of generate_cache5 "''over_limit_key''" "''x''" False]
  show ?thesis by simp
qed

theorem lock_serialization_counterexample:
  "\<not> holds_lock (locks generate_cache5 Len)
   \<and> \<not> holds_lock (locks generate_cache5 (Retrieve None None))
   \<and> Acquire \<notin> set (locks generate_cache5 Len)
   \<and> Acquire \<notin> set (locks generate_cache5 (Retrieve None None))"
  by (simp add: holds_lock_def len_locks_def retrieve_locks_def)

section \<open>Calls on reachable states return\<close>

lemma set_py_slice: "set (py_slice xs start stop) \<subseteq> set xs"
  unfolding py_slice_def Let_def
  by (auto dest!: in_set_takeD in_set_dropD)

lemma cache_entry_list_returns:
  "fst ` set items \<subseteq> dom (cache_entries c) \<Longrightarrow>
     \<exists>es. cache_entry_list c items = Return es \<and> map (\<lambda>(k, v, n). (k, n)) es = items"
proof (induction items)
  case Nil
  then show ?case by simp
next
  case (Cons item items)
  obtain k n where item: "item = (k, n)" by (cases item)
  from Cons.prems item obtain i v where kv: "cache_entries c k = Some (i, v)" by fastforce
  from Cons obtain es where "cache_entry_list c items = Return es"
    "map (\<lambda>(k, v, n). (k, n)) es = items" by auto
  with item kv show ?case by simp
qed

text \<open>
  In a state reached from a constructed cache by public calls, \<^verbatim>\<open>add\<close>, \<^verbatim>\<open>get\<close>, \<^verbatim>\<open>remove\<close>
  and \<^verbatim>\<open>retrieve\<close> return normally for all arguments: no \<^verbatim>\<open>KeyError\<close> or \<^verbatim>\<open>IndexError\<close>
  escapes from the container accesses. \<^verbatim>\<open>retrieve\<close> lists the keys and counts of the
  slice it was asked for. The limit setter either returns or raises
  \<^verbatim>\<open>LFUCacheException\<close> with the state untouched.
\<close>

theorem reachable_calls_return:
  "init limit_arg = Inr c0 \<Longrightarrow> c = run c0 ops \<Longrightarrow>
     (\<exists>b c'. add c key val update = (Return b, c'))
     \<and> (\<exists>x c'. get c key default_value = (Return x, c'))
     \<and> (\<exists>b c'. remove c key = (Return b, c'))
     \<and> (\<exists>es. retrieve c start stop = Return es
            \<and> map (\<lambda>(k, v, n). (k, n)) es = py_slice (priority_queue c) start stop)
     \<and> ((\<exists>c'. set_limit c new_limit = (Return (), c'))
          \<or> set_limit c new_limit = (Raise LFUCacheException, c))"
proof -
  assume i: "init limit_arg = Inr c0" and c: "c = run c0 ops"
  from reachable_inv [OF i, of ops] c have inv: "lfu_inv c" by simp
  then have wf: "indexed c" and wl: "within_limit c" by (simp_all add: lfu_inv_def)
  have a: "\<exists>b c'. add c key val update = (Return b, c')"
  proof -
    consider "limit c = Some 0" | "limit c \<noteq> Some 0" "has_cache c key" "\<not> update"
      | "limit c \<noteq> Some 0" "has_cache c key" "update"
      | "limit c \<noteq> Some 0" "\<not> has_cache c key" by blast
    then show ?thesis
    proof cases
      case 1
      then show ?thesis by (auto simp: add_def)
    next
      case 2
      then show ?thesis by (auto simp: add_def)
    next
      case 3
      from lfu_inv_increment [OF inv 3(2)]
      obtain c1 where r: "increment_access_count c key = (Return (), c1)"
        and h1: "has_cache c1 key"
        by (elim exE conjE)
      from h1 obtain j v where kv: "cache_entries c1 key = Some (j, v)"
        by (auto simp: has_cache_def)
      show ?thesis using 3 r kv by (auto simp: add_def Let_def)
    next
      case 4
      show ?thesis
      proof (cases "case limit c of None \<Rightarrow> True | Some lim \<Rightarrow> len c < lim")
        case True
        then show ?thesis by (auto simp: add_new_state [OF 4(2) True])
      next
        case False
        then obtain lim where l: "limit c = Some lim" "lim \<le> len c"
          by (auto split: option.splits)
        with wl 4(1) have l': "0 < lim" "len c = lim" by (auto simp: within_limit_def)
        show ?thesis by (auto simp: add_evict_state [OF wf l(1) l' 4(2)])
      qed
    qed
  qed
  have g: "\<exists>x c'. get c key default_value = (Return x, c')"
  proof (cases "has_cache c key")
    case False
    then show ?thesis by (auto simp: get_def)
  next
    case True
    let ?c1 = "c\<lparr>hits := hits c + 1\<rparr>"
    have "indexed ?c1" using wf by (simp add: indexed_def)
    moreover have "within_limit ?c1" using wl
      by (simp add: within_limit_def len_def split: option.splits)
    ultimately have i1: "lfu_inv ?c1" using inv by (simp add: lfu_inv_def)
    have h1: "has_cache ?c1 key" using True by (simp add: has_cache_def)
    from lfu_inv_increment [OF i1 h1]
    obtain c' where r: "increment_access_count ?c1 key = (Return (), c')"
      and h': "has_cache c' key"
      by (elim exE conjE)
    from h' obtain j v where kv: "cache_entries c' key = Some (j, v)"
      by (auto simp: has_cache_def)
    show ?thesis using True r kv by (auto simp: get_def Let_def)
  qed
  have r: "\<exists>b c'. remove c key = (Return b, c')"
  proof (cases "cache_entries c key")
    case None
    then show ?thesis by (auto simp: remove_def)
  next
    case (Some a)
    obtain j v where a: "cache_entries c key = Some (j, v)" using Some by (cases a) simp
    from indexed_lookup [OF wf a]
    have q: "nat j < length (priority_queue c)" and k: "fst (priority_queue c ! nat j) = key"
      by simp_all
    from remove_slot_state(2) [OF wf q] k show ?thesis by auto
  qed
  have t: "\<exists>es. retrieve c start stop = Return es
            \<and> map (\<lambda>(k, v, n). (k, n)) es = py_slice (priority_queue c) start stop"
  proof -
    have "fst ` set (py_slice (priority_queue c) start stop) \<subseteq> fst ` set (priority_queue c)"
      using set_py_slice [of "priority_queue c" start stop] by blast
    then have "fst ` set (py_slice (priority_queue c) start stop) \<subseteq> dom (cache_entries c)"
      using wf by (simp add: indexed_def)
    from cache_entry_list_returns [OF this] show ?thesis by (simp add: retrieve_def)
  qed
  have s: "(\<exists>c'. set_limit c new_limit = (Return (), c'))
          \<or> set_limit c new_limit = (Raise LFUCacheException, c)"
  proof (cases "int_value new_limit")
    case None
    then show ?thesis by (cases new_limit) (simp_all add: set_limit_def)
  next
    case (Some n)
    consider "n < 0" | "0 \<le> n" "n < len c" | "len c \<le> n" by linarith
    then show ?thesis
    proof cases
      case 1
      with Some show ?thesis by (cases new_limit) (auto simp: set_limit_def)
    next
      case 2
      show ?thesis by (simp add: set_limit_truncate [OF wf Some 2])
    next
      case 3
      show ?thesis by (simp add: set_limit_keep [OF Some 3])
    qed
  qed
  from a g r t s show ?thesis by blast
qed

theorem reachable_calls_return_witness:
  "init (PyInt 5) = Inr empty5
   \<and> (\<exists>b c'. add generate_cache5 ''3'' ''v'' True = (Return b, c'))
   \<and> (\<exists>x c'. get generate_cache5 ''3'' ''d'' = (Return x, c'))
   \<and> (\<exists>b c'. remove generate_cache5 ''3'' = (Return b, c'))
   \<and> (\<exists>es. retrieve generate_cache5 (Some 1) (Some (- 1)) = Return es
          \<and> map (\<lambda>(k, v, n). (k, n)) es = [(''1'', 1), (''2'', 1), (''3'', 1)])"
proof -
  have sl: "py_slice (priority_queue generate_cache5) (Some 1) (Some (- 1))
              = [(''1'', 1), (''2'', 1), (''3'', 1)]"
    by (simp add: generate_cache5_eq py_slice_def slice_bound_def)
  from reachable_calls_return [OF init5 generate_cache5_def,
      where key = "''3''" and val = "''v''" and update = True and default_value = "''d''"
        and start = "Some 1" and stop = "Some (- 1)"]
    init5 sl
  show ?thesis by (simp del: split_paired_Ex)
qed

section \<open>Removal by key, and clear\<close>

text \<open>
  Removal by key. A key that is not stored gives \<^verbatim>\<open>False\<close> and no change. On a well-formed
  cache, removing a stored key returns \<^verbatim>\<open>True\<close>, deletes its slot from the queue and its
  entry from the index, leaves every other key with its value, lowers by one the slot
  of each key that sat behind the removed one, and leaves a well-formed cache with the
  same counters and limit.
\<close>

theorem remove_reindexes:
  "(cache_entries c key = None \<longrightarrow> remove c key = (Return False, c))
   \<and> (indexed c \<and> cache_entries c key = Some (i, v) \<longrightarrow>
       (\<exists>c'. remove c key = (Return True, c')
          \<and> priority_queue c' = take (nat i) (priority_queue c) @ drop (Suc (nat i)) (priority_queue c)
          \<and> cache_entries c' key = None
          \<and> (\<forall>k j w. k \<noteq> key \<and> cache_entries c k = Some (j, w) \<longrightarrow>
                cache_entries c' k = Some (if i < j then j - 1 else j, w))
          \<and> indexed c'
          \<and> hits c' = hits c \<and> misses c' = misses c \<and> limit c' = limit c))"
proof -
  have absent: "remove c key = (Return False, c)" if "cache_entries c key = None"
    using that by (simp add: remove_def)
  have present: "\<exists>c'. remove c key = (Return True, c')
          \<and> priority_queue c' = take (nat i) (priority_queue c) @ drop (Suc (nat i)) (priority_queue c)
          \<and> cache_entries c' key = None
          \<and> (\<forall>k j w. k \<noteq> key \<and> cache_entries c k = Some (j, w) \<longrightarrow>
                cache_entries c' k = Some (if i < j then j - 1 else j, w))
          \<and> indexed c'
          \<and> hits c' = hits c \<and> misses c' = misses c \<and> limit c' = limit c"
    if wf: "indexed c" and kv: "cache_entries c key = Some (i, v)"
  proof -
    let ?pq = "priority_queue c"
    let ?q = "nat i"
    from indexed_lookup [OF wf kv] have i0: "0 \<le> i" and q: "?q < length ?pq"
      and kq: "fst (?pq ! ?q) = key" by simp_all
    have d: "distinct (map fst ?pq)" by (rule indexed_distinct [OF wf])
    let ?c' = "c\<lparr>cache_entries :=
                     (\<lambda>k. if k \<in> fst ` set (drop (Suc ?q) ?pq)
                          then map_option (\<lambda>(i, v). (i - 1, v)) (cache_entries c k)
                          else if k = fst (?pq ! ?q) then None else cache_entries c k),
                   priority_queue := del_at ?pq ?q\<rparr>"
    have 1: "remove c key = (Return True, ?c')"
      using remove_slot_state(2) [OF wf q] kq by simp
    have 2: "priority_queue ?c' = take ?q ?pq @ drop (Suc ?q) ?pq" by (simp add: del_at_def)
    have "key \<notin> fst ` set (drop (Suc ?q) ?pq)"
      using indexed_key_in_drop [OF d q, of "Suc ?q"] kq by simp
    then have 3: "cache_entries ?c' key = None" using kq by simp
    have 4: "cache_entries ?c' k = Some (if i < j then j - 1 else j, w)"
      if k: "k \<noteq> key" "cache_entries c k = Some (j, w)" for k j w
    proof -
      from indexed_lookup [OF wf k(2)] have j0: "0 \<le> j" and jl: "nat j < length ?pq"
        and kj: "fst (?pq ! nat j) = k" by simp_all
      have "k \<in> fst ` set (drop (Suc ?q) ?pq) \<longleftrightarrow> Suc ?q \<le> nat j"
        using indexed_key_in_drop [OF d jl, of "Suc ?q"] kj by simp
      moreover have "nat j \<noteq> ?q" using k(1) kq kj by auto
      ultimately have "k \<in> fst ` set (drop (Suc ?q) ?pq) \<longleftrightarrow> i < j"
        using i0 j0 by auto
      with k kq show ?thesis by simp
    qed
    have 5: "indexed ?c'" by (rule indexed_remove_slot [OF wf q])
    from 1 2 3 4 5 show ?thesis by (intro exI [of _ ?c']) simp
  qed
  from absent present show ?thesis by blast
qed

theorem remove_reindexes_witness:
  "indexed generate_cache5 \<and> cache_entries generate_cache5 ''2'' = Some (2, ''v2'')
   \<and> cache_entries generate_cache5 ''9'' = None
   \<and> remove generate_cache5 ''9'' = (Return False, generate_cache5)
   \<and> (\<exists>c'. remove generate_cache5 ''2'' = (Return True, c')
          \<and> priority_queue c' = [(''0'', 1), (''1'', 1), (''3'', 1), (''4'', 1)]
          \<and> cache_entries c' ''2'' = None
          \<and> cache_entries c' ''1'' = Some (1, ''v1'')
          \<and> cache_entries c' ''4'' = Some (3, ''v4''))"
proof -
  have h: "cache_entries generate_cache5 ''2'' = Some (2, ''v2'')"
    "cache_entries generate_cache5 ''9'' = None"
    "cache_entries generate_cache5 ''1'' = Some (1, ''v1'')"
    "cache_entries generate_cache5 ''4'' = Some (4, ''v4'')"
    by (simp_all add: generate_cache5_eq)
  have pq: "take (nat 2) (priority_queue generate_cache5)
              @ drop (Suc (nat 2)) (priority_queue generate_cache5)
            = [(''0'', 1), (''1'', 1), (''3'', 1), (''4'', 1)]"
    by (simp add: generate_cache5_eq)
  from remove_reindexes [of generate_cache5 "''9''"] h(2)
  have a: "remove generate_cache5 ''9'' = (Return False, generate_cache5)" by blast
  from remove_reindexes [of generate_cache5 "''2''" 2 "''v2''"] indexed_generate_cache5 h(1)
  obtain c' where c': "remove generate_cache5 ''2'' = (Return True, c')"
    "priority_queue c' = take (nat 2) (priority_queue generate_cache5)
              @ drop (Suc (nat 2)) (priority_queue generate_cache5)"
    "cache_entries c' ''2'' = None"
    "\<forall>k j w. k \<noteq> ''2'' \<and> cache_entries generate_cache5 k = Some (j, w) \<longrightarrow>
                cache_entries c' k = Some (if 2 < j then j - 1 else j, w)"
    by blast
  from c'(4) h(3) have b1: "cache_entries c' ''1'' = Some (1, ''v1'')" by fastforce
  from c'(4) h(4) have b2: "cache_entries c' ''4'' = Some (3, ''v4'')" by fastforce
  from indexed_generate_cache5 h(1,2) a c'(1,3) c'(2) [unfolded pq] b1 b2
  show ?thesis by blast
qed

text \<open>
  \<^verbatim>\<open>clear\<close> empties the queue and the index and keeps \<^verbatim>\<open>hits\<close>, \<^verbatim>\<open>misses\<close> and the limit,
  in every state.
\<close>

theorem clear_empties:
  "len (snd (clear c)) = 0 \<and> \<not> has_cache (snd (clear c)) key
   \<and> hits (snd (clear c)) = hits c \<and> misses (snd (clear c)) = misses c
   \<and> limit (snd (clear c)) = limit c \<and> fst (clear c) = Return ()"
  by (simp add: clear_def len_def has_cache_def)

end
